theory Spec2Isabelle
  imports Main "HOL-Library.List_Lexorder" "HOL-Library.Char_ord" "HOL-Library.AList"
begin

section \<open>Python strings\<close>

text \<open>
  The script works on Python \<open>str\<close> values. A character is modelled as a HOL \<open>char\<close>, read as
  the code point of the same number (U+0000 to U+00FF), so a \<open>string\<close> is a Python string over
  that range. The character classes below are the ones Python uses there: \<open>str.isspace\<close> (also the
  class \<open>\s\<close> of \<open>re\<close> on \<open>str\<close> patterns, and what \<open>str.strip()\<close> and \<open>str.split()\<close> remove),
  the decimal digits of \<open>\d\<close>, and the letters \<open>str.lower()\<close> changes.
\<close>

definition isspace :: "char \<Rightarrow> bool" where
  "isspace c = (let n = (of_char c :: nat)
     in (9 \<le> n \<and> n \<le> 13) \<or> (28 \<le> n \<and> n \<le> 32) \<or> n = 133 \<or> n = 160)"

definition isdigit :: "char \<Rightarrow> bool" where
  "isdigit c = (let n = (of_char c :: nat) in 48 \<le> n \<and> n \<le> 57)"

definition isupper :: "char \<Rightarrow> bool" where
  "isupper c = (let n = (of_char c :: nat)
     in (65 \<le> n \<and> n \<le> 90) \<or> (192 \<le> n \<and> n \<le> 222 \<and> n \<noteq> 215))"

text \<open>Lower-casing adds 32 to the code point of an upper-case letter, which sets bit 5.\<close>

definition lower_char :: "char \<Rightarrow> char" where
  "lower_char c =
     (if isupper c
      then (case c of Char b0 b1 b2 b3 b4 b5 b6 b7 \<Rightarrow> Char b0 b1 b2 b3 b4 True b6 b7)
      else c)"

definition lower :: "string \<Rightarrow> string" where
  "lower s = map lower_char s"

text \<open>\<open>s.strip()\<close>: leading and trailing whitespace removed.\<close>

definition strip :: "string \<Rightarrow> string" where
  "strip s = rev (dropWhile isspace (rev (dropWhile isspace s)))"

text \<open>\<open>s.startswith(p)\<close>, \<open>s.endswith(p)\<close> and \<open>needle in s\<close>.\<close>

fun startswith :: "string \<Rightarrow> string \<Rightarrow> bool" where
  "startswith s [] = True"
| "startswith [] (p # ps) = False"
| "startswith (c # cs) (p # ps) = (c = p \<and> startswith cs ps)"

definition endswith :: "string \<Rightarrow> string \<Rightarrow> bool" where
  "endswith s p = startswith (rev s) (rev p)"

fun contains :: "string \<Rightarrow> string \<Rightarrow> bool" where
  "contains [] needle = (needle = [])"
| "contains (c # cs) needle = (startswith (c # cs) needle \<or> contains cs needle)"

text \<open>\<open>s.replace(old, new)\<close> for a one-character \<open>old\<close>, the only use the script makes of it.\<close>

definition replace :: "string \<Rightarrow> char \<Rightarrow> string \<Rightarrow> string" where
  "replace s old new = concat (map (\<lambda>c. if c = old then new else [c]) s)"

text \<open>\<open>s.split()\<close>: the maximal runs of non-whitespace characters.\<close>

function split :: "string \<Rightarrow> string list" where
  "split s =
     (case dropWhile isspace s of
        [] \<Rightarrow> []
      | c # cs \<Rightarrow> (c # takeWhile (\<lambda>x. \<not> isspace x) cs) # split (dropWhile (\<lambda>x. \<not> isspace x) cs))"
  by pat_completeness auto
termination
proof (relation "measure length")
  fix s :: string and c cs
  assume "dropWhile isspace s = c # cs"
  then have "length (c # cs) \<le> length s"
    by (metis length_dropWhile_le)
  moreover have "length (dropWhile (\<lambda>x. \<not> isspace x) cs) \<le> length cs"
    by (rule length_dropWhile_le)
  ultimately show "(dropWhile (\<lambda>x. \<not> isspace x) cs, s) \<in> measure length"
    by simp
qed simp

text \<open>\<open>sep.join(parts)\<close>.\<close>

fun join :: "string \<Rightarrow> string list \<Rightarrow> string" where
  "join sep [] = []"
| "join sep [x] = x"
| "join sep (x # y # ys) = x @ sep @ join sep (y # ys)"

section \<open>Whitespace normalisation: \<open>clean_text\<close>\<close>

text \<open>
  \<open>_MULTISPACE_RE.sub(" ", s)\<close> with \<open>_MULTISPACE_RE = \s+\<close>: scanning from the left, each match is
  a maximal run of whitespace (the quantifier is greedy), it is replaced by one space and the
  scan goes on behind it.
\<close>

function multispace_sub :: "string \<Rightarrow> string" where
  "multispace_sub [] = []"
| "multispace_sub (c # cs) =
     (if isspace c then CHR '' '' # multispace_sub (dropWhile isspace cs)
      else c # multispace_sub cs)"
  by pat_completeness auto
termination
  by (relation "measure length") (auto simp: length_dropWhile_le less_Suc_eq_le)

text \<open>The character class \<open>[,.;:!?%]\<close>.\<close>

definition ispunct :: "char \<Rightarrow> bool" where
  "ispunct c = (c \<in> set '',.;:!?%'')"

text \<open>
  \<open>_SPACE_BEFORE_PUNCT_RE.sub(r"\1", s)\<close> with \<open>_SPACE_BEFORE_PUNCT_RE = \s+([,.;:!?%])\<close>. At a
  whitespace character the pattern matches exactly when the maximal run of whitespace starting
  there is followed by one of the marks (a shorter run is followed by whitespace, which is no
  mark); the match is replaced by the mark and the scan goes on behind it. Where it does not
  match, the character is kept and the scan moves one character on.
\<close>

function space_before_punct_sub :: "string \<Rightarrow> string" where
  "space_before_punct_sub [] = []"
| "space_before_punct_sub (c # cs) =
     (if isspace c
      then (case dropWhile isspace cs of
              [] \<Rightarrow> c # space_before_punct_sub cs
            | p # rest \<Rightarrow>
                if ispunct p then p # space_before_punct_sub rest
                else c # space_before_punct_sub cs)
      else c # space_before_punct_sub cs)"
  by pat_completeness auto
termination
proof (relation "measure length")
  fix c :: char and cs p rest
  assume "dropWhile isspace cs = p # rest"
  then have "length (p # rest) \<le> length cs"
    by (metis length_dropWhile_le)
  then show "(rest, c # cs) \<in> measure length"
    by simp
qed simp_all

definition clean_text :: "string option \<Rightarrow> string option" where
  "clean_text s =
     (case s of
        None \<Rightarrow> None
      | Some s0 \<Rightarrow>
          (let s1 = strip (multispace_sub s0);
               s2 = space_before_punct_sub s1
           in if s2 = [] then None else Some s2))"

section \<open>URLs\<close>

definition WIKI_BASE :: string where
  "WIKI_BASE = ''https://deadbydaylight.wiki.gg''"

definition API_ENDPOINT :: string where
  "API_ENDPOINT = WIKI_BASE @ ''/api.php''"

text \<open>
  \<open>urllib.parse.quote(s, safe)\<close>: letters, digits, \<open>_.-~\<close> and the characters of \<open>safe\<close> are kept,
  every other character is replaced by \<open>%XX\<close> for each byte of its UTF-8 encoding (one byte
  below U+0080, two bytes from U+0080 to U+00FF), in upper-case hexadecimal.
\<close>

definition always_safe :: "char \<Rightarrow> bool" where
  "always_safe c =
     (c \<in> set ''ABCDEFGHIJKLMNOPQRSTUVWXYZabcdefghijklmnopqrstuvwxyz0123456789_.-~'')"

definition utf8 :: "char \<Rightarrow> nat list" where
  "utf8 c = (let n = (of_char c :: nat) in if n < 128 then [n] else [192 + n div 64, 128 + n mod 64])"

definition percent :: "nat \<Rightarrow> string" where
  "percent b = [CHR ''%'', ''0123456789ABCDEF'' ! (b div 16), ''0123456789ABCDEF'' ! (b mod 16)]"

definition quote :: "string \<Rightarrow> string \<Rightarrow> string" where
  "quote s safe =
     concat (map (\<lambda>c. if always_safe c \<or> c \<in> set safe then [c] else concat (map percent (utf8 c))) s)"

text \<open>\<open>urllib.parse.quote_plus(s)\<close>: as \<open>quote\<close> with nothing else safe, a space written \<open>+\<close>.\<close>

definition quote_plus :: "string \<Rightarrow> string" where
  "quote_plus s =
     (if CHR '' '' \<in> set s then replace (quote s '' '') CHR '' '' ''+'' else quote s [])"

type_synonym params = "(string \<times> string) list"

definition urlencode :: "params \<Rightarrow> string" where
  "urlencode ps = join ''&'' (map (\<lambda>(k, v). quote_plus k @ ''='' @ quote_plus v) ps)"

definition join_url :: "string \<Rightarrow> string" where
  "join_url path_or_url =
     (if path_or_url = [] then path_or_url
      else if startswith path_or_url ''http://'' \<or> startswith path_or_url ''https://''
        then path_or_url
      else if startswith path_or_url ''/'' then WIKI_BASE @ path_or_url
      else WIKI_BASE @ ''/'' @ path_or_url)"

definition canonical_page_url :: "string \<Rightarrow> string" where
  "canonical_page_url title = WIKI_BASE @ ''/wiki/'' @ quote (replace title CHR '' '' ''_'') ''/''"

definition normalize_category_name :: "string \<Rightarrow> string" where
  "normalize_category_name cat = strip (replace cat CHR ''_'' '' '')"

section \<open>The remote wiki and \<open>fetch_json\<close>\<close>

text \<open>
  The decoded JSON answers are read through typed views that hold what the script reads of
  them, each with the default the script gives a missing key.
  A member of a category listing is read with \<open>m.get("ns")\<close> and \<open>m.get("title")\<close>.
\<close>

datatype member = Member (member_ns: "int option") (member_title: "string option")

text \<open>
  The value of \<open>"parse"\<close>: \<open>parse_text\<close> is \<open>parse.get("text", {}).get("*")\<close>, and
  \<open>parse_categories\<close> holds \<open>c.get("*")\<close> for each entry \<open>c\<close> of \<open>parse.get("categories", [])\<close>.
\<close>

record parse_obj =
  parse_text :: "string option"
  parse_categories :: "string option list"

text \<open>
  A decoded answer \<open>data\<close>: \<open>resp_categorymembers\<close> is
  \<open>data.get("query", {}).get("categorymembers", [])\<close>, \<open>resp_continue\<close> is
  \<open>data.get("continue", {})\<close> (a dictionary of request parameters, empty when absent), and
  \<open>resp_parse\<close> is \<open>data.get("parse")\<close>, \<open>None\<close> when the key is absent or its value is falsy.
\<close>

record response =
  resp_categorymembers :: "member list"
  resp_continue :: params
  resp_parse :: "parse_obj option"

datatype error = FetchError string

text \<open>
  What can go wrong below \<open>fetch_json\<close>, with the text of the exception caught: the request
  fails in \<open>_request\<close>, or the body is no UTF-8 encoded JSON.
\<close>

datatype failure = RequestFailed string | DecodeFailed string

text \<open>
  The remote wiki: what a GET of \<open>API_ENDPOINT?urlencode(params)\<close> with the given
  \<open>User-Agent\<close> answers. The arguments are the user agent and the parameters.
\<close>

type_synonym wiki = "string \<Rightarrow> params \<Rightarrow> failure + response"

definition fetch_json :: "wiki \<Rightarrow> params \<Rightarrow> string \<Rightarrow> error + response" where
  "fetch_json w ps user_agent =
     (let url = API_ENDPOINT @ ''?'' @ urlencode ps
      in case w user_agent ps of
           Inl (RequestFailed e) \<Rightarrow> Inl (FetchError (''Request failed: '' @ url @ '' ('' @ e @ '')''))
         | Inl (DecodeFailed e) \<Rightarrow>
             Inl (FetchError (''Failed to decode JSON for: '' @ url @ '' ('' @ e @ '')''))
         | Inr data \<Rightarrow> Inr data)"

section \<open>Category traversal\<close>

text \<open>\<open>params.update(cont)\<close> on dictionaries that keep insertion order.\<close>

definition dict_update :: "params \<Rightarrow> params \<Rightarrow> params" where
  "dict_update ps cont = fold (\<lambda>(k, v). AList.update k v) cont ps"

text \<open>
  \<open>iter_category_members\<close> is a generator; its one caller consumes it to the end, so the model
  returns the members of all result pages in the order they are yielded, or the error that a
  request raised. The loop runs as long as the wiki sends a continuation: \<open>None\<close> is the run
  that never ends. The waiting between requests (\<open>time.sleep\<close>) is not part of the model.
\<close>

partial_function (option) iter_category_members ::
  "wiki \<Rightarrow> string \<Rightarrow> string \<Rightarrow> string \<Rightarrow> params \<Rightarrow> (error + member list) option" where
  "iter_category_members w category_title user_agent cmtype cont =
     (let ps = dict_update
                 [(''action'', ''query''), (''list'', ''categorymembers''),
                  (''cmtitle'', category_title), (''cmtype'', cmtype),
                  (''cmlimit'', ''max''), (''format'', ''json'')] cont
      in case fetch_json w ps user_agent of
           Inl e \<Rightarrow> Some (Inl e)
         | Inr data \<Rightarrow>
             if resp_continue data = [] then Some (Inr (resp_categorymembers data))
             else Option.bind
                    (iter_category_members w category_title user_agent cmtype (resp_continue data))
                    (\<lambda>r. Some (case r of
                                 Inl e \<Rightarrow> Inl e
                               | Inr ms \<Rightarrow> Inr (resp_categorymembers data @ ms))))"

text \<open>
  The state of the loop of \<open>discover_item_pages\<close>: its three variables, and \<open>enumerated\<close>, the
  categories whose members have been requested so far, in the order of the requests.
\<close>

record traversal =
  seen_cats :: "string set"
  queue :: "string list"
  pages :: "string set"
  enumerated :: "string list"

text \<open>The body of \<open>for m in iter_category_members(...)\<close>.\<close>

definition visit_member :: "member \<Rightarrow> traversal \<Rightarrow> traversal" where
  "visit_member m st =
     (case member_title m of
        None \<Rightarrow> st
      | Some title \<Rightarrow>
          if title = [] then st
          else if member_ns m = Some 14 then st\<lparr>queue := queue st @ [title]\<rparr>
          else if member_ns m = Some 0 then st\<lparr>pages := insert title (pages st)\<rparr>
          else st)"

text \<open>
  The \<open>while queue\<close> loop. The result is the state when the loop ends, with the error if a
  request raised; \<open>None\<close> is the run that never ends.
\<close>

partial_function (option) discover_loop ::
  "wiki \<Rightarrow> string \<Rightarrow> traversal \<Rightarrow> (error option \<times> traversal) option" where
  "discover_loop w user_agent st =
     (case queue st of
        [] \<Rightarrow> Some (None, st)
      | cat # rest \<Rightarrow>
          if cat \<in> seen_cats st then discover_loop w user_agent (st\<lparr>queue := rest\<rparr>)
          else
            (let st1 = st\<lparr>queue := rest, seen_cats := insert cat (seen_cats st),
                           enumerated := enumerated st @ [cat]\<rparr>
             in case iter_category_members w cat user_agent ''page|subcat'' [] of
                  None \<Rightarrow> None
                | Some (Inl e) \<Rightarrow> Some (Some e, st1)
                | Some (Inr ms) \<Rightarrow> discover_loop w user_agent (fold visit_member ms st1)))"

declare iter_category_members.simps [code] discover_loop.simps [code]

definition discover_start :: traversal where
  "discover_start = \<lparr>seen_cats = {}, queue = [''Category:Items''], pages = {}, enumerated = []\<rparr>"

definition discover_item_pages :: "wiki \<Rightarrow> string \<Rightarrow> (error + string list) option" where
  "discover_item_pages w user_agent =
     (case discover_loop w user_agent discover_start of
        None \<Rightarrow> None
      | Some (Some e, st) \<Rightarrow> Some (Inl e)
      | Some (None, st) \<Rightarrow> Some (Inr (sorted_list_of_set (pages st))))"

section \<open>The parsed page\<close>

text \<open>
  \<open>BeautifulSoup(html, "lxml")\<close> turns the page into a tree of tags and strings. The parser
  is not part of the script: the functions below take it as the parameter \<open>BeautifulSoup\<close>. A
  node is a string (a \<open>NavigableString\<close>) or a tag with its name, its attributes and its
  children; comments and the other special strings are not modelled. The whole document is a
  tag of its own, named \<open>[document]\<close>.
\<close>

datatype node = Text string | Element string "(string \<times> string) list" "node list"

text \<open>
  A tag object of the library knows where it stands in the tree. The selectors used by the
  script look at the names of the enclosing tags and at the name of the nearest tag among the
  preceding siblings, so a position holds these two with the node itself.
\<close>

record tag =
  parent_names :: "string list"
  prev_name :: "string option"
  node :: node

definition is_named :: "string \<Rightarrow> tag \<Rightarrow> bool" where
  "is_named nm t = (case node t of Text s \<Rightarrow> False | Element n a cs \<Rightarrow> n = nm)"

text \<open>\<open>t.get(key)\<close>: the value of an attribute, \<open>None\<close> when the tag has none of that name.\<close>

definition get :: "tag \<Rightarrow> string \<Rightarrow> string option" where
  "get t key = (case node t of Text s \<Rightarrow> None | Element n a cs \<Rightarrow> map_of a key)"

text \<open>The nodes of a list of siblings, each with its position.\<close>

fun child_tags :: "string list \<Rightarrow> string option \<Rightarrow> node list \<Rightarrow> tag list" where
  "child_tags anc prev [] = []"
| "child_tags anc prev (c # cs) =
     \<lparr>parent_names = anc, prev_name = prev, node = c\<rparr>
       # child_tags anc (case c of Text s \<Rightarrow> prev | Element n a cs' \<Rightarrow> Some n) cs"

text \<open>\<open>t.children\<close>.\<close>

definition children :: "tag \<Rightarrow> tag list" where
  "children t =
     (case node t of
        Text s \<Rightarrow> []
      | Element n a cs \<Rightarrow> child_tags (n # parent_names t) None cs)"

text \<open>\<open>t.descendants\<close>: every node below \<open>t\<close>, in document order.\<close>

fun descendants_in :: "string list \<Rightarrow> node \<Rightarrow> tag list"
  and descendants_among :: "string list \<Rightarrow> string option \<Rightarrow> node list \<Rightarrow> tag list" where
  "descendants_in anc (Text s) = []"
| "descendants_in anc (Element n a cs) = descendants_among (n # anc) None cs"
| "descendants_among anc prev [] = []"
| "descendants_among anc prev (c # cs) =
     \<lparr>parent_names = anc, prev_name = prev, node = c\<rparr>
       # descendants_in anc c
       @ descendants_among anc (case c of Text s \<Rightarrow> prev | Element n a cs' \<Rightarrow> Some n) cs"

definition descendants :: "tag \<Rightarrow> tag list" where
  "descendants t = descendants_in (parent_names t) (node t)"

text \<open>\<open>t.find(name)\<close> and \<open>t.find_all(name)\<close>: the tags of that name below \<open>t\<close>.\<close>

definition find_all :: "tag \<Rightarrow> string \<Rightarrow> tag list" where
  "find_all t nm = filter (is_named nm) (descendants t)"

definition find_tag :: "tag \<Rightarrow> string \<Rightarrow> tag option" where
  "find_tag t nm = List.find (is_named nm) (descendants t)"

text \<open>\<open>t.find_all(names, recursive=False)\<close>: the children of \<open>t\<close> with one of the names.\<close>

definition find_all_children :: "tag \<Rightarrow> string list \<Rightarrow> tag list" where
  "find_all_children t nms = filter (\<lambda>c. \<exists>nm \<in> set nms. is_named nm c) (children t)"

text \<open>
  \<open>t.get_text(" ", strip=True)\<close>: the strings below \<open>t\<close> in document order, each stripped, the
  empty ones left out, joined by one space.
\<close>

fun strings :: "node \<Rightarrow> string list" where
  "strings (Text s) = [s]"
| "strings (Element n a cs) = concat (map strings cs)"

definition get_text :: "tag \<Rightarrow> string" where
  "get_text t = join '' '' (filter (\<lambda>s. s \<noteq> []) (map strip (strings (node t))))"

text \<open>
  The selectors of the script. \<open>select\<close> gives the matching tags below \<open>t\<close> in document order and
  \<open>select_one\<close> the first of them. A selector is matched against the whole document, so the
  tags that enclose \<open>t\<close>, and \<open>t\<close> itself, count as ancestors.
  \<open>img\<close> and \<open>tr\<close>: the tags of that name.
\<close>

definition select :: "tag \<Rightarrow> string \<Rightarrow> tag list" where
  "select t nm = filter (is_named nm) (descendants t)"

definition select_one :: "tag \<Rightarrow> string \<Rightarrow> tag option" where
  "select_one t nm = List.find (is_named nm) (descendants t)"

text \<open>\<open>p i\<close>: the \<open>i\<close> tags with a \<open>p\<close> among their ancestors.\<close>

definition select_p_i :: "tag \<Rightarrow> tag list" where
  "select_p_i t = filter (\<lambda>d. is_named ''i'' d \<and> ''p'' \<in> set (parent_names d)) (descendants t)"

text \<open>\<open>table.wikitable\<close>: the \<open>table\<close> tags whose \<open>class\<close> attribute lists \<open>wikitable\<close>.\<close>

definition has_class :: "tag \<Rightarrow> string \<Rightarrow> bool" where
  "has_class t cls = (case get t ''class'' of None \<Rightarrow> False | Some v \<Rightarrow> cls \<in> set (split v))"

definition select_one_table_wikitable :: "tag \<Rightarrow> tag option" where
  "select_one_table_wikitable t =
     List.find (\<lambda>d. is_named ''table'' d \<and> has_class d ''wikitable'') (descendants t)"

text \<open>
  \<open>tbody tr + tr\<close>: the \<open>tr\<close> tags with a \<open>tbody\<close> among their ancestors, whose nearest
  preceding sibling tag is a \<open>tr\<close>.
\<close>

definition select_one_tbody_tr_tr :: "tag \<Rightarrow> tag option" where
  "select_one_tbody_tr_tr t =
     List.find (\<lambda>d. is_named ''tr'' d \<and> ''tbody'' \<in> set (parent_names d) \<and> prev_name d = Some ''tr'')
       (descendants t)"

section \<open>Cost\<close>

record ParsedCost =
  amount :: "int option"
  currency :: "string option"

definition CURRENCY_HINTS :: "(string \<times> string) list" where
  "CURRENCY_HINTS =
     [(''bloodpoints'', ''bloodpoints''),
      (''bp'', ''bloodpoints''),
      (''iridescent shards'', ''iridescent_shards''),
      (''shards'', ''iridescent_shards''),
      (''auric cells'', ''auric_cells''),
      (''cells'', ''auric_cells'')]"

text \<open>\<open>x or ""\<close> for an attribute value.\<close>

definition or_empty :: "string option \<Rightarrow> string" where
  "or_empty v = (case v of None \<Rightarrow> [] | Some s \<Rightarrow> s)"

text \<open>The loop over \<open>td.select("img")\<close>, which stops at the first image that gives a currency.\<close>

fun image_currency :: "tag list \<Rightarrow> string option" where
  "image_currency [] = None"
| "image_currency (img # imgs) =
     (let alt = lower (or_empty (get img ''alt''));
          src = lower (or_empty (get img ''src''));
          blob = alt @ '' '' @ src
      in if contains blob ''bloodpoints'' then Some ''bloodpoints''
         else if contains blob ''shards'' then Some ''iridescent_shards''
         else if contains blob ''auric'' \<or> contains blob ''cells'' then Some ''auric_cells''
         else image_currency imgs)"

text \<open>The loop over \<open>_CURRENCY_HINTS\<close>.\<close>

fun hint_currency :: "(string \<times> string) list \<Rightarrow> string \<Rightarrow> string option" where
  "hint_currency [] lower_text = None"
| "hint_currency ((needle, mapped) # hints) lower_text =
     (if contains lower_text needle then Some mapped else hint_currency hints lower_text)"

text \<open>
  \<open>re.search(r"(\d[\d,]*)", text)\<close>: the leftmost digit, with the longest run of digits and
  commas behind it; \<open>None\<close> when the text has no digit.
\<close>

definition search_amount :: "string \<Rightarrow> string option" where
  "search_amount text =
     (case dropWhile (\<lambda>c. \<not> isdigit c) text of
        [] \<Rightarrow> None
      | d # rest \<Rightarrow> Some (d # takeWhile (\<lambda>c. isdigit c \<or> c = CHR '','') rest))"

text \<open>\<open>int(s)\<close> for a string of decimal digits.\<close>

definition digit_value :: "char \<Rightarrow> int" where
  "digit_value c = int (of_char c) - 48"

definition int_of_digits :: "string \<Rightarrow> int" where
  "int_of_digits s = foldl (\<lambda>a c. 10 * a + digit_value c) 0 s"

definition parse_cost_cell :: "tag option \<Rightarrow> ParsedCost" where
  "parse_cost_cell td_opt =
     (case td_opt of
        None \<Rightarrow> \<lparr>amount = None, currency = None\<rparr>
      | Some td \<Rightarrow>
          (let text = join '' '' (split (get_text td));
               currency1 = image_currency (select td ''img'');
               currency2 = (case currency1 of
                              None \<Rightarrow> hint_currency CURRENCY_HINTS (lower text)
                            | Some c \<Rightarrow> Some c);
               amount1 = (case search_amount text of
                            None \<Rightarrow> None
                          | Some g \<Rightarrow> Some (int_of_digits (replace g CHR '','' [])))
           in \<lparr>amount = amount1, currency = currency2\<rparr>))"

section \<open>Description\<close>

record description =
  summary :: "string option"
  effects :: "string list"
  flavor_text :: "string option"
  raw_text :: "string option"

text \<open>
  The text of a child of the cell as the loop over \<open>desc_td.children\<close> takes it:
  \<open>get_text(" ", strip=True)\<close> of a tag, and the stripped string itself otherwise (for a string
  both branches of the source give this).
\<close>

definition child_text :: "tag \<Rightarrow> string" where
  "child_text nd = (case node nd of Text s \<Rightarrow> strip s | Element n a cs \<Rightarrow> get_text nd)"

text \<open>The loop over \<open>desc_td.children\<close>, which stops at the first child named \<open>ul\<close>.\<close>

fun summary_parts :: "tag list \<Rightarrow> string list" where
  "summary_parts [] = []"
| "summary_parts (nd # nds) =
     (if is_named ''ul'' nd then []
      else (case clean_text (Some (child_text nd)) of
              None \<Rightarrow> summary_parts nds
            | Some txt \<Rightarrow> txt # summary_parts nds))"

text \<open>The loop over \<open>ul.find_all("li")\<close>.\<close>

fun effects_of :: "tag list \<Rightarrow> string list" where
  "effects_of [] = []"
| "effects_of (li # lis) =
     (case clean_text (Some (get_text li)) of
        None \<Rightarrow> effects_of lis
      | Some li_txt \<Rightarrow> li_txt # effects_of lis)"

text \<open>The loop over \<open>desc_td.select("p i")\<close>, which stops at the first text with a quotation mark.\<close>

fun flavor_of :: "tag list \<Rightarrow> string option" where
  "flavor_of [] = None"
| "flavor_of (ital # itals) =
     (case clean_text (Some (get_text ital)) of
        None \<Rightarrow> flavor_of itals
      | Some t \<Rightarrow> if CHR 0x22 \<in> set t then Some (strip t) else flavor_of itals)"

definition extract_description_parts :: "tag option \<Rightarrow> description" where
  "extract_description_parts desc_td_opt =
     (case desc_td_opt of
        None \<Rightarrow> \<lparr>summary = None, effects = [], flavor_text = None, raw_text = None\<rparr>
      | Some desc_td \<Rightarrow>
          (let ul = find_tag desc_td ''ul'';
               summary_parts1 = (case ul of None \<Rightarrow> [] | Some u \<Rightarrow> summary_parts (children desc_td));
               effects1 = (case ul of None \<Rightarrow> [] | Some u \<Rightarrow> effects_of (find_all u ''li''));
               flavor_text1 = flavor_of (select_p_i desc_td);
               raw_text1 = clean_text (Some (get_text desc_td));
               summary1 = clean_text (Some (join '' '' summary_parts1));
               flavor_text2 = clean_text flavor_text1
           in \<lparr>summary = summary1, effects = effects1, flavor_text = flavor_text2,
               raw_text = raw_text1\<rparr>))"

section \<open>Item pages\<close>

record item =
  title :: string
  wiki_url :: string
  rarity :: "string option"
  icon_url :: "string option"
  cost :: ParsedCost
  description :: description
  categories :: "string list"

text \<open>The request of \<open>parse_item_page\<close>.\<close>

definition parse_params :: "string \<Rightarrow> params" where
  "parse_params title0 =
     [(''action'', ''parse''), (''page'', title0), (''prop'', ''text|categories''),
      (''format'', ''json'')]"

text \<open>The loop over \<open>cats\<close> that infers the rarity, which stops at the first match.\<close>

fun rarity_of :: "string list \<Rightarrow> string option" where
  "rarity_of [] = None"
| "rarity_of (c # cs) =
     (if endswith (lower c) '' items'' \<and> lower c \<notin> {''items''}
      then Some (strip (take (length c - length '' items'') c))
      else rarity_of cs)"

text \<open>The row of the table: \<open>tbody tr + tr\<close>, else the second \<open>tr\<close> of the table if it has one.\<close>

definition first_data_row :: "tag \<Rightarrow> tag option" where
  "first_data_row table =
     (case select_one_tbody_tr_tr table of
        Some row \<Rightarrow> Some row
      | None \<Rightarrow>
          (let rows = select table ''tr''
           in if length rows > 1 then Some (rows ! 1) else None))"

text \<open>The three values taken from the table, with their defaults where the table has none.\<close>

definition table_fields :: "tag option \<Rightarrow> string option \<times> description \<times> ParsedCost" where
  "table_fields table_opt =
     (let icon_url0 = None;
          description0 = \<lparr>summary = None, effects = [], flavor_text = None, raw_text = None\<rparr>;
          cost0 = \<lparr>amount = None, currency = None\<rparr>
      in case table_opt of
           None \<Rightarrow> (icon_url0, description0, cost0)
         | Some table \<Rightarrow>
             (case first_data_row table of
                None \<Rightarrow> (icon_url0, description0, cost0)
              | Some row \<Rightarrow>
                  (let cells = find_all_children row [''td'', ''th''];
                       icon_url1 =
                         (if length cells \<ge> 1
                          then (case select_one (cells ! 0) ''img'' of
                                  None \<Rightarrow> icon_url0
                                | Some img \<Rightarrow> Some (join_url (or_empty (get img ''src''))))
                          else icon_url0);
                       description1 =
                         (if length cells \<ge> 2 then extract_description_parts (Some (cells ! 1))
                          else description0);
                       cost1 =
                         (if length cells \<ge> 3 then parse_cost_cell (Some (cells ! 2)) else cost0)
                   in (icon_url1, description1, cost1))))"

text \<open>
  The categories of the page: the entries with a name, each normalised, without the
  maintenance categories.
\<close>

definition page_categories :: "parse_obj \<Rightarrow> string list" where
  "page_categories parse =
     (let cats = map (\<lambda>c. normalize_category_name (or_empty c))
                   (filter (\<lambda>c. c \<noteq> None \<and> c \<noteq> Some []) (parse_categories parse))
      in filter (\<lambda>c. \<not> startswith (lower c) ''pages using '') cats)"

text \<open>The document: the tag the parser returns, with nothing above it.\<close>

definition document :: "node \<Rightarrow> tag" where
  "document n = \<lparr>parent_names = [], prev_name = None, node = n\<rparr>"

text \<open>\<open>parse_item_page\<close>: the record of the page, or the error raised.\<close>

definition parse_item_page ::
  "(string \<Rightarrow> node) \<Rightarrow> wiki \<Rightarrow> string \<Rightarrow> string \<Rightarrow> error + item" where
  "parse_item_page BeautifulSoup w title0 user_agent =
     (let ps = parse_params title0
      in case fetch_json w ps user_agent of
           Inl e \<Rightarrow> Inl e
         | Inr data \<Rightarrow>
             (case resp_parse data of
                None \<Rightarrow> Inl (FetchError (''Missing parse output for page: '' @ title0))
              | Some parse \<Rightarrow>
                  (let html = or_empty (parse_text parse);
                       cats = page_categories parse;
                       soup = document (BeautifulSoup html);
                       table = select_one_table_wikitable soup;
                       (icon_url1, description1, cost1) = table_fields table;
                       rarity1 = rarity_of cats
                   in Inr \<lparr>title = title0, wiki_url = canonical_page_url title0,
                           rarity = rarity1, icon_url = icon_url1, cost = cost1,
                           description = description1, categories = cats\<rparr>)))"

section \<open>The run\<close>

record error_record =
  error_title :: string
  error_message :: string

text \<open>\<open>str(e)\<close> of the exception caught.\<close>

fun str_of_error :: "error \<Rightarrow> string" where
  "str_of_error (FetchError msg) = msg"

text \<open>The loop of \<open>main\<close> over the titles, from the two lists it has built so far.\<close>

fun scrape_titles ::
  "(string \<Rightarrow> node) \<Rightarrow> wiki \<Rightarrow> string \<Rightarrow> string list \<Rightarrow> item list \<times> error_record list
     \<Rightarrow> item list \<times> error_record list" where
  "scrape_titles BeautifulSoup w user_agent [] (items, errors) = (items, errors)"
| "scrape_titles BeautifulSoup w user_agent (t # ts) (items, errors) =
     (case parse_item_page BeautifulSoup w t user_agent of
        Inr it \<Rightarrow> scrape_titles BeautifulSoup w user_agent ts (items @ [it], errors)
      | Inl e \<Rightarrow>
          scrape_titles BeautifulSoup w user_agent ts
            (items, errors @ [\<lparr>error_title = t, error_message = str_of_error e\<rparr>]))"

record payload =
  source :: string
  scraped_at :: string
  item_count :: nat
  items :: "item list"
  errors :: "error_record list"

text \<open>
  \<open>main\<close> up to the document it writes: \<open>scraped_at\<close> is the time stamp taken at the start and
  \<open>limit\<close> the value of \<open>--limit\<close>. An error of the traversal is not caught; \<open>None\<close> is the run
  whose traversal never ends.
\<close>

definition main :: "(string \<Rightarrow> node) \<Rightarrow> wiki \<Rightarrow> string \<Rightarrow> string \<Rightarrow> int \<Rightarrow> (error + payload) option" where
  "main BeautifulSoup w scraped_at0 user_agent limit =
     (case discover_item_pages w user_agent of
        None \<Rightarrow> None
      | Some (Inl e) \<Rightarrow> Some (Inl e)
      | Some (Inr titles0) \<Rightarrow>
          (let titles = (if limit > 0 then take (nat limit) titles0 else titles0);
               (items1, errors1) = scrape_titles BeautifulSoup w user_agent titles ([], [])
           in Some (Inr \<lparr>source = WIKI_BASE, scraped_at = scraped_at0,
                          item_count = length items1, items = items1, errors = errors1\<rparr>)))"

section \<open>Specifications\<close>

text \<open>
  The definitions of this section are not translations of the script. They say in the words
  of the specification what the functions above are to compute, and the theorems below
  compare the two.
\<close>

subsection \<open>Whitespace normalisation\<close>

text \<open>Each run of whitespace becomes one space.\<close>

fun collapse_runs :: "string \<Rightarrow> string" where
  "collapse_runs [] = []"
| "collapse_runs [c] = [if isspace c then CHR '' '' else c]"
| "collapse_runs (c # d # cs) =
     (if isspace c
      then (if isspace d then collapse_runs (d # cs) else CHR '' '' # collapse_runs (d # cs))
      else c # collapse_runs (d # cs))"

text \<open>The spaces at both ends are removed.\<close>

definition trim_spaces :: "string \<Rightarrow> string" where
  "trim_spaces s =
     rev (dropWhile (\<lambda>c. c = CHR '' '') (rev (dropWhile (\<lambda>c. c = CHR '' '') s)))"

text \<open>A space is removed where the next character is one of the marks.\<close>

fun drop_space_before_punct :: "string \<Rightarrow> string" where
  "drop_space_before_punct [] = []"
| "drop_space_before_punct [c] = [c]"
| "drop_space_before_punct (c # d # cs) =
     (if c = CHR '' '' \<and> ispunct d then drop_space_before_punct (d # cs)
      else c # drop_space_before_punct (d # cs))"

definition clean_text_spec :: "string \<Rightarrow> string option" where
  "clean_text_spec s =
     (let r = drop_space_before_punct (trim_spaces (collapse_runs s))
      in if r = [] then None else Some r)"

subsection \<open>The shape of normalised text\<close>

text \<open>Every whitespace character is a space, and none is followed by whitespace.\<close>

fun collapsed :: "string \<Rightarrow> bool" where
  "collapsed [] = True"
| "collapsed [c] = (isspace c \<longrightarrow> c = CHR '' '')"
| "collapsed (c # d # cs) =
     ((isspace c \<longrightarrow> c = CHR '' '' \<and> \<not> isspace d) \<and> collapsed (d # cs))"

text \<open>The same, and the last character is no whitespace.\<close>

fun spaced :: "string \<Rightarrow> bool" where
  "spaced [] = True"
| "spaced [c] = (\<not> isspace c)"
| "spaced (c # d # cs) = ((isspace c \<longrightarrow> c = CHR '' '' \<and> \<not> isspace d) \<and> spaced (d # cs))"

text \<open>No space stands right before one of the marks.\<close>

fun nospp :: "string \<Rightarrow> bool" where
  "nospp [] = True"
| "nospp [c] = True"
| "nospp (c # d # cs) = (\<not> (c = CHR '' '' \<and> ispunct d) \<and> nospp (d # cs))"

text \<open>The shape of a normalised text: all of the above, and no whitespace at the start.\<close>

definition tidy :: "string \<Rightarrow> bool" where
  "tidy t = (spaced t \<and> nospp t \<and> (t = [] \<or> \<not> isspace (hd t)))"

text \<open>The string \<open>clean_text\<close> computes, before the empty one is replaced by \<open>None\<close>.\<close>

definition normalise :: "string \<Rightarrow> string" where
  "normalise s = space_before_punct_sub (strip (multispace_sub s))"

text \<open>Single spaces between words, and none at either end.\<close>

definition single_spaced :: "string \<Rightarrow> bool" where
  "single_spaced u = (spaced u \<and> (u = [] \<or> \<not> isspace (hd u)))"

text \<open>A list of words: none is empty and none holds whitespace.\<close>

definition wordlist :: "string list \<Rightarrow> bool" where
  "wordlist ws = (\<forall>w \<in> set ws. w \<noteq> [] \<and> (\<forall>c \<in> set w. \<not> isspace c))"

text \<open>
  The normalised text of a list of words, and the normalised text of two normalised texts
  put one after the other.
\<close>

definition pj :: "string list \<Rightarrow> string" where
  "pj ws = drop_space_before_punct (join '' '' ws)"

definition glue :: "string \<Rightarrow> string \<Rightarrow> string" where
  "glue u v =
     (if u = [] then v else if v = [] then u
      else u @ (if ispunct (hd v) then v else CHR '' '' # v))"

subsection \<open>Rarity\<close>

text \<open>
  The name without its last six characters, when these are \<open>" items"\<close> in any mix of upper
  and lower case.
\<close>

definition items_suffix :: "string \<Rightarrow> string option" where
  "items_suffix c =
     (if length c \<ge> 6 \<and> lower (drop (length c - 6) c) = '' items''
      then Some (take (length c - 6) c) else None)"

text \<open>
  The first category with that ending that is not \<open>Items\<close> itself gives the rarity: what
  stands before the ending, stripped.
\<close>

definition rarity_spec :: "string list \<Rightarrow> string option" where
  "rarity_spec cats =
     (case List.find (\<lambda>c. items_suffix c \<noteq> None \<and> lower c \<noteq> ''items'') cats of
        None \<Rightarrow> None
      | Some c \<Rightarrow> map_option strip (items_suffix c))"

subsection \<open>Cost\<close>

text \<open>The text in which an image is searched for a hint: its \<open>alt\<close> and \<open>src\<close> in lower case.\<close>

definition blob_of :: "tag \<Rightarrow> string" where
  "blob_of img = lower (or_empty (get img ''alt'')) @ '' '' @ lower (or_empty (get img ''src''))"

text \<open>The currency an image stands for, by priority of the hints.\<close>

definition image_hint :: "string \<Rightarrow> string option" where
  "image_hint blob =
     (if contains blob ''bloodpoints'' then Some ''bloodpoints''
      else if contains blob ''shards'' then Some ''iridescent_shards''
      else if contains blob ''auric'' \<or> contains blob ''cells'' then Some ''auric_cells''
      else None)"

text \<open>The currency a lower-case text stands for, by priority of the hints.\<close>

definition text_hint :: "string \<Rightarrow> string option" where
  "text_hint l =
     (if contains l ''bloodpoints'' then Some ''bloodpoints''
      else if contains l ''bp'' then Some ''bloodpoints''
      else if contains l ''iridescent shards'' then Some ''iridescent_shards''
      else if contains l ''shards'' then Some ''iridescent_shards''
      else if contains l ''auric cells'' then Some ''auric_cells''
      else if contains l ''cells'' then Some ''auric_cells''
      else None)"

text \<open>The visible text of the cell.\<close>

definition visible_text :: "tag \<Rightarrow> string" where
  "visible_text td = join '' '' (split (get_text td))"

text \<open>The first image with a hint decides; without one the text does.\<close>

definition currency_spec :: "tag \<Rightarrow> string option" where
  "currency_spec td =
     (case List.find (\<lambda>img. image_hint (blob_of img) \<noteq> None) (select td ''img'') of
        Some img \<Rightarrow> image_hint (blob_of img)
      | None \<Rightarrow> text_hint (lower (visible_text td)))"

subsection \<open>Description\<close>

text \<open>
  The text of a list of nodes as \<open>get_text(" ", strip=True)\<close> gives it: their strings in document
  order, each stripped, the empty ones left out, joined by one space.
\<close>

definition text_before :: "tag list \<Rightarrow> string" where
  "text_before ts =
     join '' '' (filter (\<lambda>s. s \<noteq> []) (map strip (concat (map (\<lambda>t. strings (node t)) ts))))"

text \<open>
  The flavour text: the normalised text of the first \<open>i\<close> inside a \<open>p\<close>, in document order,
  whose text holds a quotation mark.
\<close>

definition flavor_spec :: "tag \<Rightarrow> string option" where
  "flavor_spec td =
     (case List.find (\<lambda>i. CHR 0x22 \<in> set (get_text i)) (select_p_i td) of
        None \<Rightarrow> None
      | Some i \<Rightarrow> clean_text (Some (get_text i)))"

subsection \<open>Category graph\<close>

text \<open>
  The members the wiki lists for a category, all result pages together; none when the listing
  fails or never ends.
\<close>

definition members_of :: "wiki \<Rightarrow> string \<Rightarrow> string \<Rightarrow> member list" where
  "members_of w ua c =
     (case iter_category_members w c ua ''page|subcat'' [] of
        Some (Inr ms) \<Rightarrow> ms
      | _ \<Rightarrow> [])"

text \<open>
  Of the members, those that count: a member with a non-empty title is a sub-category when
  its namespace is 14 and a page when it is 0.
\<close>

definition subcats_of :: "member list \<Rightarrow> string list" where
  "subcats_of ms =
     List.map_filter
       (\<lambda>m. case member_title m of
               None \<Rightarrow> None
             | Some t \<Rightarrow> if t \<noteq> [] \<and> member_ns m = Some 14 then Some t else None) ms"

definition pages_of :: "member list \<Rightarrow> string set" where
  "pages_of ms =
     set (List.map_filter
       (\<lambda>m. case member_title m of
               None \<Rightarrow> None
             | Some t \<Rightarrow> if t \<noteq> [] \<and> member_ns m = Some 0 then Some t else None) ms)"

text \<open>The edges of the category graph.\<close>

definition subcat_edge :: "wiki \<Rightarrow> string \<Rightarrow> string \<Rightarrow> string \<Rightarrow> bool" where
  "subcat_edge w ua c t = (t \<in> set (subcats_of (members_of w ua c)))"

definition page_edge :: "wiki \<Rightarrow> string \<Rightarrow> string \<Rightarrow> string \<Rightarrow> bool" where
  "page_edge w ua c t = (t \<in> pages_of (members_of w ua c))"

text \<open>The categories that can be reached from the root along sub-category edges.\<close>

inductive reachable :: "wiki \<Rightarrow> string \<Rightarrow> string \<Rightarrow> bool" for w ua where
  root: "reachable w ua ''Category:Items''"
| step: "reachable w ua c \<Longrightarrow> subcat_edge w ua c t \<Longrightarrow> reachable w ua t"

text \<open>The pages listed by a reachable category, and the edges that list them.\<close>

definition reachable_pages :: "wiki \<Rightarrow> string \<Rightarrow> string set" where
  "reachable_pages w ua = {t. \<exists>c. reachable w ua c \<and> page_edge w ua c t}"

definition page_edges :: "wiki \<Rightarrow> string \<Rightarrow> (string \<times> string) set" where
  "page_edges w ua = {(c, t). reachable w ua c \<and> page_edge w ua c t}"

text \<open>
  What holds each time the loop of \<open>discover_item_pages\<close> tests its queue: only reachable
  categories have been met, each category seen has been enumerated once, the root is seen or
  queued, what a seen category lists is seen or queued or collected, and only reachable
  pages have been collected.
\<close>

definition traversal_inv :: "wiki \<Rightarrow> string \<Rightarrow> traversal \<Rightarrow> bool" where
  "traversal_inv w ua st \<longleftrightarrow>
     seen_cats st \<subseteq> {c. reachable w ua c}
     \<and> set (queue st) \<subseteq> {c. reachable w ua c}
     \<and> distinct (enumerated st) \<and> set (enumerated st) = seen_cats st
     \<and> ''Category:Items'' \<in> seen_cats st \<union> set (queue st)
     \<and> (\<forall>c \<in> seen_cats st. \<forall>t. subcat_edge w ua c t \<longrightarrow> t \<in> seen_cats st \<union> set (queue st))
     \<and> (\<forall>c \<in> seen_cats st. \<forall>t. page_edge w ua c t \<longrightarrow> t \<in> pages st)
     \<and> pages st \<subseteq> reachable_pages w ua
     \<and> finite (pages st)"

text \<open>What holds when the loop has ended, with the error if there was one.\<close>

definition traversal_post :: "wiki \<Rightarrow> string \<Rightarrow> error option \<Rightarrow> traversal \<Rightarrow> bool" where
  "traversal_post w ua r st \<longleftrightarrow>
     distinct (enumerated st) \<and> set (enumerated st) = seen_cats st
     \<and> (r = None \<longrightarrow> queue st = [] \<and> traversal_inv w ua st)"

subsection \<open>Example pages\<close>

text \<open>A table cell of the item table, as it stands in a page.\<close>

definition cell :: "node list \<Rightarrow> tag" where
  "cell cs =
     \<lparr>parent_names = [''tr'', ''tbody'', ''table'', ''body'', ''html'', ''[document]''],
      prev_name = Some ''td'', node = Element ''td'' [] cs\<rparr>"

text \<open>
  A wiki. \<open>Category:Items\<close> lists its members on two result pages, and it and
  \<open>Category:Rare Items\<close> list each other. Of the pages, \<open>Toolbox\<close> has an item table,
  \<open>Map\<close> has none, \<open>Gone\<close> does not exist, and every other request fails.
\<close>

definition example_answer :: "member list \<Rightarrow> params \<Rightarrow> parse_obj option \<Rightarrow> response" where
  "example_answer ms cont p = \<lparr>resp_categorymembers = ms, resp_continue = cont, resp_parse = p\<rparr>"

definition example_parse :: "string \<Rightarrow> parse_obj" where
  "example_parse html =
     \<lparr>parse_text = Some html,
      parse_categories = [Some ''Items'', Some ''Pages_using_DynamicPageList'', None,
                          Some ''Very_Rare_Items'', Some ''Survivor_Items'']\<rparr>"

definition example_members :: "params \<Rightarrow> response" where
  "example_members ps =
     (if map_of ps ''cmtitle'' = Some ''Category:Items''
      then (if map_of ps ''cmcontinue'' = None
            then example_answer
                   [Member (Some 14) (Some ''Category:Rare Items''), Member (Some 0) (Some ''Toolbox'')]
                   [(''cmcontinue'', ''page|2''), (''continue'', ''-||'')] None
            else example_answer
                   [Member (Some 0) (Some ''Map''), Member (Some 2) (Some ''User:Claudette''),
                    Member (Some 0) (Some ''Gone'')] [] None)
      else if map_of ps ''cmtitle'' = Some ''Category:Rare Items''
      then example_answer
             [Member (Some 14) (Some ''Category:Items''), Member (Some 0) (Some ''Toolbox''),
              Member (Some 0) (Some ''Flashlight''), Member (Some 0) None] [] None
      else example_answer [] [] None)"

definition example_wiki :: wiki where
  "example_wiki user_agent ps =
     (if map_of ps ''action'' = Some ''query'' then Inr (example_members ps)
      else if map_of ps ''page'' = Some ''Toolbox''
        then Inr (example_answer [] [] (Some (example_parse ''toolbox'')))
      else if map_of ps ''page'' = Some ''Map''
        then Inr (example_answer [] [] (Some (example_parse ''map'')))
      else if map_of ps ''page'' = Some ''Gone'' then Inr (example_answer [] [] None)
      else Inl (RequestFailed ''HTTP Error 403: Forbidden''))"

definition example_icon_cell :: node where
  "example_icon_cell =
     Element ''th'' [] [Element ''a'' [(''href'', ''/wiki/File:Toolbox.png'')]
                         [Element ''img'' [(''alt'', ''Toolbox'')] []]]"

definition example_row :: node where
  "example_row =
     Element ''tr'' []
       [example_icon_cell,
        Element ''td'' [] [Text ''Repairs faster.'',
                           Element ''ul'' [] [Element ''li'' [] [Text ''32 charges'']]],
        Element ''td'' [] [Text ''Cost: 6,000'']]"

definition example_table :: node where
  "example_table =
     Element ''table'' [(''class'', ''wikitable sortable'')]
       [Element ''tbody'' []
          [Element ''tr'' [] [Element ''th'' [] [Text ''Icon''],
                              Element ''th'' [] [Text ''Description''],
                              Element ''th'' [] [Text ''Cost'']],
           Text [CHR 0x0A],
           example_row]]"

definition example_soup :: "string \<Rightarrow> node" where
  "example_soup html =
     (if html = ''toolbox''
      then Element ''[document]'' [] [Element ''html'' [] [Element ''body'' [] [example_table]]]
      else Element ''[document]'' [] [Element ''html'' [] [Element ''body'' []
             [Element ''p'' [] [Text ''A map.'']]]])"

text \<open>The places of the table, of its data row, of the first cell and of the image there.\<close>

definition example_table_tag :: tag where
  "example_table_tag =
     \<lparr>parent_names = [''body'', ''html'', ''[document]''], prev_name = None,
      node = example_table\<rparr>"

definition example_row_tag :: tag where
  "example_row_tag =
     \<lparr>parent_names = [''tbody'', ''table'', ''body'', ''html'', ''[document]''],
      prev_name = Some ''tr'', node = example_row\<rparr>"

definition example_cells :: "tag list" where
  "example_cells = find_all_children example_row_tag [''td'', ''th'']"

definition example_img :: tag where
  "example_img =
     \<lparr>parent_names = [''a'', ''th'', ''tr'', ''tbody'', ''table'', ''body'', ''html'', ''[document]''],
      prev_name = None, node = Element ''img'' [(''alt'', ''Toolbox'')] []\<rparr>"

text \<open>
  Description cells: one with prose, a list and a quoted line in italics; one that holds
  nothing but an image; and one whose first list stands inside a \<open>div\<close>, has an empty item
  and is followed by a second list.
\<close>

definition example_description :: tag where
  "example_description =
     cell [Text ''Boosts your luck. '',
           Element ''ul'' [] [Element ''li'' [] [Text ''item 1''], Text [CHR 0x0A],
                              Element ''li'' [] [Text ''item  2 .'']],
           Element ''p'' [] [Element ''i'' [] [Text (CHR 0x22 # ''Fortune favors the bold.'' @ [CHR 0x22])]]]"

definition example_image_cell :: tag where
  "example_image_cell = cell [Element ''img'' [(''src'', ''/images/Toolbox.png'')] []]"

definition example_nested_list :: tag where
  "example_nested_list =
     cell [Element ''div'' []
             [Text ''Intro'',
              Element ''ul'' [] [Element ''li'' [] [Text '' ''], Element ''li'' [] [Text ''x'']]],
           Text ''Outro'',
           Element ''ul'' [] [Element ''li'' [] [Text ''y'']]]"

text \<open>
  A second wiki with the same category graph: no result pages, the members in another order
  and one of them listed twice.
\<close>

definition example_wiki2 :: wiki where
  "example_wiki2 user_agent ps =
     (if map_of ps ''cmtitle'' = Some ''Category:Items''
      then Inr (example_answer
             [Member (Some 0) (Some ''Gone''), Member (Some 0) (Some ''Map''),
              Member (Some 0) (Some ''Toolbox''), Member (Some 14) (Some ''Category:Rare Items''),
              Member (Some 0) (Some ''Map'')] [] None)
      else if map_of ps ''cmtitle'' = Some ''Category:Rare Items''
      then Inr (example_answer
             [Member (Some 0) (Some ''Flashlight''), Member (Some 0) (Some ''Toolbox''),
              Member (Some 14) (Some ''Category:Items'')] [] None)
      else Inr (example_answer [] [] None))"

text \<open>A description cell whose prose is cut into pieces by a tag.\<close>

definition example_adjacent :: tag where
  "example_adjacent =
     cell [Text ''Heal'', Element ''b'' [] [Text ''ing''], Text '' faster'',
           Element ''ul'' [] [Element ''li'' [] [Text ''x'']]]"

section \<open>Properties\<close>

declare split.simps [simp del]

subsection \<open>Strings\<close>

lemma isspace_space [simp]: "isspace CHR '' ''"
  by (simp add: isspace_def)

lemma ispunct_not_isspace [simp]: "ispunct c \<Longrightarrow> \<not> isspace c"
  by (auto simp: ispunct_def isspace_def)

lemma ispunct_not_space [simp]: "ispunct c \<Longrightarrow> c \<noteq> CHR '' ''"
  by (auto simp: ispunct_def)

lemma startswith_take: "startswith s p \<longleftrightarrow> take (length p) s = p"
  by (induction s p rule: startswith.induct) auto

lemma startswith_append: "startswith s p \<longleftrightarrow> (\<exists>post. s = p @ post)"
  by (induction s p rule: startswith.induct) auto

lemma endswith_drop:
  "endswith s p \<longleftrightarrow> length p \<le> length s \<and> drop (length s - length p) s = p"
proof -
  have "endswith s p \<longleftrightarrow> take (length p) (rev s) = rev p"
    by (simp add: endswith_def startswith_take)
  also have "\<dots> \<longleftrightarrow> rev (drop (length s - length p) s) = rev p"
    by (simp add: take_rev)
  also have "\<dots> \<longleftrightarrow> drop (length s - length p) s = p"
    by simp
  finally have *: "endswith s p \<longleftrightarrow> drop (length s - length p) s = p" .
  show ?thesis
  proof (cases "length p \<le> length s")
    case True
    with * show ?thesis by simp
  next
    case False
    then have "length (drop (length s - length p) s) \<noteq> length p"
      by simp
    then have "drop (length s - length p) s \<noteq> p"
      by metis
    with * False show ?thesis by simp
  qed
qed

text \<open>\<open>contains\<close> is the substring test.\<close>

lemma contains_substring: "contains s n \<longleftrightarrow> (\<exists>pre post. s = pre @ n @ post)"
proof (induction s)
  case Nil
  then show ?case by auto
next
  case (Cons c cs)
  show ?case
  proof
    assume "contains (c # cs) n"
    then consider "startswith (c # cs) n" | "contains cs n"
      by auto
    then show "\<exists>pre post. c # cs = pre @ n @ post"
    proof cases
      case 1
      then obtain post where "c # cs = n @ post"
        by (auto simp: startswith_append)
      then have "c # cs = [] @ n @ post" by simp
      then show ?thesis by blast
    next
      case 2
      then obtain pre post where "cs = pre @ n @ post"
        using Cons by blast
      then have "c # cs = (c # pre) @ n @ post" by simp
      then show ?thesis by blast
    qed
  next
    assume "\<exists>pre post. c # cs = pre @ n @ post"
    then obtain pre post where eq: "c # cs = pre @ n @ post" by blast
    show "contains (c # cs) n"
    proof (cases pre)
      case Nil
      with eq have "startswith (c # cs) n"
        by (auto simp: startswith_append)
      then show ?thesis by simp
    next
      case (Cons a pre')
      with eq have "cs = pre' @ n @ post" by simp
      then have "contains cs n"
        using Cons.IH by blast
      then show ?thesis by simp
    qed
  qed
qed

lemma find_SomeD: "List.find P xs = Some x \<Longrightarrow> P x"
  by (auto simp: find_Some_iff)

lemma replace_empty: "replace s c [] = filter (\<lambda>x. x \<noteq> c) s"
  by (induction s) (auto simp: replace_def)

subsection \<open>The shape of normalised text\<close>

lemma multispace_sub_collapse_runs: "multispace_sub s = collapse_runs s"
proof (induction s rule: collapse_runs.induct)
  case (3 c d cs)
  show ?case
  proof (cases "isspace c")
    case True
    note c = this
    show ?thesis
    proof (cases "isspace d")
      case True
      with c 3 show ?thesis by simp
    next
      case False
      with c 3 show ?thesis by simp
    qed
  next
    case False
    with 3 show ?thesis by simp
  qed
qed simp_all

lemma collapsed_Cons:
  "collapsed (c # xs) =
     ((isspace c \<longrightarrow> c = CHR '' '' \<and> (xs = [] \<or> \<not> isspace (hd xs))) \<and> collapsed xs)"
  by (cases xs) auto

lemma collapse_runs_Cons_nonspace:
  "\<not> isspace d \<Longrightarrow> collapse_runs (d # cs) = d # collapse_runs cs"
  by (cases cs) auto

lemma collapse_runs_Cons_space: "isspace d \<Longrightarrow> \<exists>r. collapse_runs (d # cs) = CHR '' '' # r"
  by (induction cs arbitrary: d) auto

lemma collapsed_collapse_runs: "collapsed (collapse_runs s)"
proof (induction s rule: collapse_runs.induct)
  case (3 c d cs)
  show ?case
  proof (cases "isspace d")
    case True
    then obtain r where r: "collapse_runs (d # cs) = CHR '' '' # r"
      using collapse_runs_Cons_space by blast
    with 3 True show ?thesis
      by (auto simp: collapsed_Cons)
  next
    case False
    then have d: "collapse_runs (d # cs) = d # collapse_runs cs"
      by (rule collapse_runs_Cons_nonspace)
    have "collapsed (d # collapse_runs cs)"
      using 3 False d by (cases "isspace c") auto
    then show ?thesis
      using False d by (auto simp: collapsed_Cons)
  qed
qed simp_all

lemma collapsed_space: "collapsed s \<Longrightarrow> c \<in> set s \<Longrightarrow> isspace c = (c = CHR '' '')"
  by (induction s rule: collapsed.induct) auto

lemma collapsed_dropWhile: "collapsed s \<Longrightarrow> collapsed (dropWhile P s)"
  by (induction s rule: collapsed.induct) auto

lemma collapsed_butlast: "collapsed s \<Longrightarrow> collapsed (butlast s)"
  by (induction s rule: collapsed.induct) auto

lemma rev_dropWhile_rev_butlast:
  "rev (dropWhile P (rev s)) =
     (if s \<noteq> [] \<and> P (last s) then rev (dropWhile P (rev (butlast s))) else s)"
  by (cases s rule: rev_cases) auto

lemma collapsed_rstrip: "collapsed s \<Longrightarrow> collapsed (rev (dropWhile P (rev s)))"
proof (induction "length s" arbitrary: s)
  case 0
  then show ?case by simp
next
  case (Suc n)
  show ?case
  proof (cases "s \<noteq> [] \<and> P (last s)")
    case True
    with Suc have "collapsed (rev (dropWhile P (rev (butlast s))))"
      by (auto intro!: Suc.hyps(1) collapsed_butlast)
    with True show ?thesis
      by (subst rev_dropWhile_rev_butlast) simp
  next
    case False
    with Suc.prems show ?thesis
      by (subst rev_dropWhile_rev_butlast) auto
  qed
qed

lemma collapsed_strip: "collapsed s \<Longrightarrow> collapsed (strip s)"
  by (simp add: strip_def collapsed_rstrip collapsed_dropWhile)

lemma strip_trim_spaces: "collapsed s \<Longrightarrow> strip s = trim_spaces s"
proof -
  assume c: "collapsed s"
  have 1: "dropWhile isspace s = dropWhile (\<lambda>c. c = CHR '' '') s"
    using c by (intro dropWhile_cong) (auto simp: collapsed_space)
  have "collapsed (dropWhile isspace s)"
    using c by (rule collapsed_dropWhile)
  then have 2: "dropWhile isspace (rev (dropWhile isspace s))
      = dropWhile (\<lambda>c. c = CHR '' '') (rev (dropWhile isspace s))"
    by (intro dropWhile_cong) (auto simp: collapsed_space)
  show ?thesis
    unfolding strip_def trim_spaces_def using 1 2 by simp
qed

lemma spaced_collapsed: "spaced s = (collapsed s \<and> (s = [] \<or> \<not> isspace (last s)))"
  by (induction s rule: spaced.induct) auto

lemma last_rstrip: "rev (dropWhile P (rev s)) = [] \<or> \<not> P (last (rev (dropWhile P (rev s))))"
  by (induction s rule: rev_induct) auto

lemma spaced_strip: "collapsed s \<Longrightarrow> spaced (strip s)"
  unfolding spaced_collapsed
  using collapsed_strip[of s] last_rstrip[of isspace "dropWhile isspace s"]
  by (auto simp: strip_def)

lemma drop_space_before_punct_Cons:
  "c \<noteq> CHR '' '' \<Longrightarrow> drop_space_before_punct (c # cs) = c # drop_space_before_punct cs"
  by (cases cs) auto

lemma space_before_punct_sub_spaced:
  "spaced s \<Longrightarrow> space_before_punct_sub s = drop_space_before_punct s"
proof (induction s rule: spaced.induct)
  case (3 c d cs)
  show ?case
  proof (cases "isspace c")
    case True
    with 3 have c: "c = CHR '' ''" and d: "\<not> isspace d" and sp: "spaced (d # cs)"
      by auto
    have dw: "dropWhile isspace (d # cs) = d # cs"
      using d by simp
    show ?thesis
    proof (cases "ispunct d")
      case True
      have "space_before_punct_sub (d # cs) = drop_space_before_punct (d # cs)"
        using 3 sp by simp
      then have "space_before_punct_sub cs = drop_space_before_punct cs"
        using d True by (simp add: drop_space_before_punct_Cons)
      then show ?thesis
        using True c d dw by (simp add: drop_space_before_punct_Cons)
    next
      case False
      then show ?thesis
        using c d dw 3 sp by simp
    qed
  next
    case False
    with 3 show ?thesis
      by (auto simp: isspace_def)
  qed
qed simp_all

lemma clean_text_refines: "clean_text (Some s) = clean_text_spec s"
proof -
  have c: "collapsed (multispace_sub s)"
    by (simp add: multispace_sub_collapse_runs collapsed_collapse_runs)
  have "strip (multispace_sub s) = trim_spaces (collapse_runs s)"
    using strip_trim_spaces[OF c] by (simp add: multispace_sub_collapse_runs)
  moreover have "space_before_punct_sub (strip (multispace_sub s))
      = drop_space_before_punct (strip (multispace_sub s))"
    using spaced_strip[OF c] by (rule space_before_punct_sub_spaced)
  ultimately show ?thesis
    by (simp add: clean_text_def clean_text_spec_def Let_def)
qed

text \<open>
  Claim C6. For every string, \<open>clean_text\<close> turns each run of whitespace into one space, removes
  the spaces at both ends, then removes every space that stands right before one of the marks
  \<open>, . ; : ! ? %\<close>, and gives \<open>None\<close> in place of an empty result; \<open>None\<close> is passed through, and
  \<open>"  Heals   faster ,  grants Exposure !  "\<close> becomes \<open>"Heals faster, grants Exposure!"\<close>.
\<close>

theorem clean_text_normalises:
  "clean_text (Some s) = clean_text_spec s
   \<and> clean_text (Some s) \<noteq> Some []
   \<and> clean_text None = None
   \<and> clean_text (Some ''  Heals   faster ,  grants Exposure !  '')
       = Some ''Heals faster, grants Exposure!''"
proof -
  have "clean_text (Some ''  Heals   faster ,  grants Exposure !  '')
      = Some ''Heals faster, grants Exposure!''"
    by code_simp
  moreover have "clean_text (Some s) \<noteq> Some []"
    by (simp add: clean_text_def Let_def)
  ultimately show ?thesis
    by (simp add: clean_text_refines) (simp add: clean_text_def)
qed

theorem clean_text_normalises_witness:
  "clean_text (Some ('' a'' @ [CHR 0x09, CHR 0x0A] @ '',b  '')) = clean_text_spec ('' a'' @ [CHR 0x09, CHR 0x0A] @ '',b  '')
   \<and> clean_text_spec ('' a'' @ [CHR 0x09, CHR 0x0A] @ '',b  '') = Some ''a,b''"
proof -
  have "clean_text_spec ('' a'' @ [CHR 0x09, CHR 0x0A] @ '',b  '') = Some ''a,b''"
    by code_simp
  then show ?thesis
    using clean_text_normalises [of "'' a'' @ [CHR 0x09, CHR 0x0A] @ '',b  ''"] by simp
qed

subsection \<open>Rarity\<close>

lemma length_items_ending: "Suc (Suc (Suc (Suc (Suc (Suc 0))))) = 6"
  by simp

lemma endswith_items: "endswith (lower c) '' items'' \<longleftrightarrow> items_suffix c \<noteq> None"
  by (simp add: endswith_drop items_suffix_def lower_def drop_map length_items_ending)

lemma rarity_of_spec: "rarity_of cats = rarity_spec cats"
  by (induction cats) (auto simp: rarity_spec_def endswith_items items_suffix_def length_items_ending)

lemma items_suffix_append:
  assumes "lower suf = '' items''"
  shows "items_suffix (pre @ suf) = Some pre"
proof -
  have "length (lower suf) = 6"
    unfolding assms by simp
  then have "length suf = 6"
    by (simp add: lower_def)
  then show ?thesis
    using assms by (simp add: items_suffix_def)
qed

subsection \<open>Item pages\<close>

lemma parse_item_page_unfold:
  "parse_item_page B w t ua =
     (case fetch_json w (parse_params t) ua of
        Inl e \<Rightarrow> Inl e
      | Inr data \<Rightarrow>
          (case resp_parse data of
             None \<Rightarrow> Inl (FetchError (''Missing parse output for page: '' @ t))
           | Some parse \<Rightarrow>
               (let fields = table_fields
                               (select_one_table_wikitable (document (B (or_empty (parse_text parse)))))
                in Inr \<lparr>title = t, wiki_url = canonical_page_url t,
                         rarity = rarity_of (page_categories parse), icon_url = fst fields,
                         cost = snd (snd fields), description = fst (snd fields),
                         categories = page_categories parse\<rparr>)))"
  by (simp add: parse_item_page_def Let_def split: sum.splits option.splits prod.splits)

lemma example_fetch_toolbox:
  "fetch_json example_wiki (parse_params ''Toolbox'') ''ua''
     = Inr (example_answer [] [] (Some (example_parse ''toolbox'')))"
  by (simp add: fetch_json_def example_wiki_def parse_params_def)

lemma example_fetch_map:
  "fetch_json example_wiki (parse_params ''Map'') ''ua''
     = Inr (example_answer [] [] (Some (example_parse ''map'')))"
  by (simp add: fetch_json_def example_wiki_def parse_params_def)

lemma example_fetch_gone:
  "fetch_json example_wiki (parse_params ''Gone'') ''ua'' = Inr (example_answer [] [] None)"
  by (simp add: fetch_json_def example_wiki_def parse_params_def)

text \<open>
  Claim C8. The rarity of a record is taken from its categories: the first one, in order, that
  ends with \<open>" Items"\<close> in any case and is not \<open>Items\<close> itself gives it, as the name without that
  ending (stripped), and without such a category the rarity is unset. The categories
  \<open>["Items", "Very Rare Items", "Survivor Items"]\<close> give \<open>"Very Rare"\<close>.
\<close>

theorem rarity_from_categories:
  "(parse_item_page B w t ua = Inr it \<longrightarrow> rarity it = rarity_spec (categories it))
   \<and> rarity_of cats = rarity_spec cats
   \<and> (lower suf = '' items'' \<longrightarrow> items_suffix (pre @ suf) = Some pre)
   \<and> rarity_of [''Items'', ''Very Rare Items'', ''Survivor Items''] = Some ''Very Rare''"
proof -
  have "rarity_of [''Items'', ''Very Rare Items'', ''Survivor Items''] = Some ''Very Rare''"
    by code_simp
  moreover have "parse_item_page B w t ua = Inr it \<longrightarrow> rarity it = rarity_spec (categories it)"
    by (auto simp: parse_item_page_unfold Let_def rarity_of_spec split: sum.splits option.splits)
  ultimately show ?thesis
    by (simp add: rarity_of_spec items_suffix_append)
qed

theorem rarity_from_categories_witness:
  "(\<exists>it. parse_item_page example_soup example_wiki ''Toolbox'' ''ua'' = Inr it
       \<and> categories it = [''Items'', ''Very Rare Items'', ''Survivor Items'']
       \<and> rarity it = rarity_spec [''Items'', ''Very Rare Items'', ''Survivor Items''])
   \<and> lower '' ITems'' = '' items''
   \<and> items_suffix (''Very Rare'' @ '' ITems'') = Some ''Very Rare''
   \<and> rarity_spec [''Items'', ''Very Rare Items'', ''Survivor Items''] = Some ''Very Rare''"
proof -
  obtain it where it: "parse_item_page example_soup example_wiki ''Toolbox'' ''ua'' = Inr it"
    by (simp add: parse_item_page_unfold example_fetch_toolbox example_answer_def Let_def)
  have cats: "page_categories (example_parse ''toolbox'')
      = [''Items'', ''Very Rare Items'', ''Survivor Items'']"
    by code_simp
  have c: "categories it = [''Items'', ''Very Rare Items'', ''Survivor Items'']"
    using it cats
    by (auto simp: parse_item_page_unfold example_fetch_toolbox example_answer_def Let_def)
  have l: "lower '' ITems'' = '' items''"
    by code_simp
  have rs: "rarity_spec [''Items'', ''Very Rare Items'', ''Survivor Items''] = Some ''Very Rare''"
    by code_simp
  from rarity_from_categories [of example_soup example_wiki "''Toolbox''" "''ua''" it
      "[''Items'', ''Very Rare Items'', ''Survivor Items'']" "'' ITems''" "''Very Rare''"]
  show ?thesis
    using it c l rs by (simp del: rarity_of.simps)
qed

text \<open>
  Claim C3. When the answer has a parse result and the page has no table that matches
  \<open>table.wikitable\<close>, \<open>parse_item_page\<close> raises nothing: it returns the record with \<open>icon_url\<close>
  unset, the cost \<open>{amount: null, currency: null}\<close> and the description
  \<open>{summary: null, effects: [], flavor_text: null, raw_text: null}\<close>, together with the title,
  the URL made from the title and the filtered categories.
\<close>

theorem no_table_gives_empty_record:
  assumes "fetch_json w (parse_params t) ua = Inr data"
    and "resp_parse data = Some parse"
    and "select_one_table_wikitable (document (B (or_empty (parse_text parse)))) = None"
  shows "parse_item_page B w t ua =
     Inr \<lparr>title = t, wiki_url = canonical_page_url t,
           rarity = rarity_of (page_categories parse), icon_url = None,
           cost = \<lparr>amount = None, currency = None\<rparr>,
           description = \<lparr>summary = None, effects = [], flavor_text = None, raw_text = None\<rparr>,
           categories = page_categories parse\<rparr>"
  using assms by (simp add: parse_item_page_unfold table_fields_def)

theorem no_table_gives_empty_record_witness:
  "fetch_json example_wiki (parse_params ''Map'') ''ua'' = Inr (example_answer [] [] (Some (example_parse ''map'')))
   \<and> resp_parse (example_answer [] [] (Some (example_parse ''map''))) = Some (example_parse ''map'')
   \<and> select_one_table_wikitable (document (example_soup (or_empty (parse_text (example_parse ''map''))))) = None
   \<and> parse_item_page example_soup example_wiki ''Map'' ''ua'' =
       Inr \<lparr>title = ''Map'', wiki_url = ''https://deadbydaylight.wiki.gg/wiki/Map'',
             rarity = Some ''Very Rare'', icon_url = None,
             cost = \<lparr>amount = None, currency = None\<rparr>,
             description = \<lparr>summary = None, effects = [], flavor_text = None, raw_text = None\<rparr>,
             categories = [''Items'', ''Very Rare Items'', ''Survivor Items'']\<rparr>"
proof -
  have h2: "resp_parse (example_answer [] [] (Some (example_parse ''map''))) = Some (example_parse ''map'')"
    by (simp add: example_answer_def)
  have h3: "select_one_table_wikitable
      (document (example_soup (or_empty (parse_text (example_parse ''map''))))) = None"
    by code_simp
  have cats: "page_categories (example_parse ''map'')
      = [''Items'', ''Very Rare Items'', ''Survivor Items'']"
    by code_simp
  have r: "rarity_of [''Items'', ''Very Rare Items'', ''Survivor Items''] = Some ''Very Rare''"
    by code_simp
  have u: "canonical_page_url ''Map'' = ''https://deadbydaylight.wiki.gg/wiki/Map''"
    by code_simp
  show ?thesis
    using no_table_gives_empty_record [where B = example_soup, OF example_fetch_map h2 h3] h2 h3 cats r u
    by (simp add: example_fetch_map)
qed

text \<open>
  Claim C10. When the first cell of the first data row of the item table holds an image whose
  \<open>src\<close> attribute is missing or empty (the image \<open>select_one("img")\<close> finds there),
  \<open>parse_item_page\<close> sets \<open>icon_url\<close> to the empty string and not to \<open>None\<close>, since \<open>join_url\<close>
  returns an empty argument as it is.
\<close>

theorem icon_url_empty_for_missing_src:
  assumes "fetch_json w (parse_params t) ua = Inr data"
    and "resp_parse data = Some parse"
    and "select_one_table_wikitable (document (B (or_empty (parse_text parse)))) = Some table"
    and "first_data_row table = Some row"
    and "find_all_children row [''td'', ''th''] = c0 # cells"
    and "select_one c0 ''img'' = Some img"
    and "get img ''src'' = None \<or> get img ''src'' = Some []"
  shows "(\<exists>it. parse_item_page B w t ua = Inr it \<and> icon_url it = Some [])
     \<and> join_url [] = []"
  using assms
  by (auto simp: parse_item_page_unfold table_fields_def Let_def or_empty_def join_url_def)

theorem icon_url_empty_for_missing_src_witness:
  "fetch_json example_wiki (parse_params ''Toolbox'') ''ua''
       = Inr (example_answer [] [] (Some (example_parse ''toolbox'')))
   \<and> resp_parse (example_answer [] [] (Some (example_parse ''toolbox''))) = Some (example_parse ''toolbox'')
   \<and> select_one_table_wikitable
         (document (example_soup (or_empty (parse_text (example_parse ''toolbox'')))))
       = Some example_table_tag
   \<and> first_data_row example_table_tag = Some example_row_tag
   \<and> find_all_children example_row_tag [''td'', ''th''] = hd example_cells # tl example_cells
   \<and> select_one (hd example_cells) ''img'' = Some example_img
   \<and> get example_img ''src'' = None
   \<and> (\<exists>it. parse_item_page example_soup example_wiki ''Toolbox'' ''ua'' = Inr it
         \<and> icon_url it = Some [])"
proof -
  have h2: "resp_parse (example_answer [] [] (Some (example_parse ''toolbox'')))
      = Some (example_parse ''toolbox'')"
    by (simp add: example_answer_def)
  have h3: "select_one_table_wikitable
       (document (example_soup (or_empty (parse_text (example_parse ''toolbox'')))))
      = Some example_table_tag"
    by code_simp
  have h4: "first_data_row example_table_tag = Some example_row_tag"
    by code_simp
  have h5: "find_all_children example_row_tag [''td'', ''th''] = hd example_cells # tl example_cells"
    by code_simp
  have h6: "select_one (hd example_cells) ''img'' = Some example_img"
    by code_simp
  have h7: "get example_img ''src'' = None"
    by code_simp
  from icon_url_empty_for_missing_src [where B = example_soup, OF example_fetch_toolbox h2 h3 h4 h5 h6 disjI1 [OF h7]]
  show ?thesis
    using h2 h3 h4 h5 h6 h7 by (auto simp: example_fetch_toolbox)
qed

subsection \<open>The run\<close>

lemma fetch_json_not_missing:
  "fetch_json w ps ua \<noteq> Inl (FetchError (''Missing parse output for page: '' @ t))"
  by (auto simp: fetch_json_def Let_def split: sum.splits failure.splits)

lemma missing_parse_iff:
  "parse_item_page B w t ua = Inl (FetchError (''Missing parse output for page: '' @ t))
   \<longleftrightarrow> (\<exists>data. fetch_json w (parse_params t) ua = Inr data \<and> resp_parse data = None)"
  using fetch_json_not_missing[of w "parse_params t" ua t]
  by (auto simp: parse_item_page_unfold Let_def split: sum.splits option.splits)

lemma scrape_titles_append:
  "scrape_titles B w ua (ts1 @ ts2) st = scrape_titles B w ua ts2 (scrape_titles B w ua ts1 st)"
proof (induction ts1 arbitrary: st)
  case Nil
  show ?case by (cases st) simp
next
  case (Cons t ts)
  show ?case
    by (cases st) (simp add: Cons split: sum.splits)
qed

lemma scrape_titles_errors_grow:
  "scrape_titles B w ua ts (its, errs) = (its', errs') \<Longrightarrow> set errs \<subseteq> set errs'"
proof (induction ts arbitrary: its errs)
  case Nil
  then show ?case by simp
next
  case (Cons t ts)
  then show ?case
    by (fastforce split: sum.splits)
qed

lemma scrape_titles_length:
  "scrape_titles B w ua ts (its, errs) = (its', errs')
   \<Longrightarrow> length its' + length errs' = length its + length errs + length ts"
proof (induction ts arbitrary: its errs)
  case Nil
  then show ?case by simp
next
  case (Cons t ts)
  show ?case
  proof (cases "parse_item_page B w t ua")
    case (Inl e)
    with Cons.prems have "scrape_titles B w ua ts
        (its, errs @ [\<lparr>error_title = t, error_message = str_of_error e\<rparr>]) = (its', errs')"
      by simp
    from Cons.IH [OF this] show ?thesis by simp
  next
    case (Inr it)
    with Cons.prems have "scrape_titles B w ua ts (its @ [it], errs) = (its', errs')"
      by simp
    from Cons.IH [OF this] show ?thesis by simp
  qed
qed

lemma scrape_titles_missing_step:
  assumes "fetch_json w (parse_params t) ua = Inr data" and "resp_parse data = None"
  shows "scrape_titles B w ua (ts1 @ t # ts2) st =
     scrape_titles B w ua ts2
       (fst (scrape_titles B w ua ts1 st),
        snd (scrape_titles B w ua ts1 st)
          @ [\<lparr>error_title = t, error_message = ''Missing parse output for page: '' @ t\<rparr>])"
proof -
  have "parse_item_page B w t ua = Inl (FetchError (''Missing parse output for page: '' @ t))"
    using assms missing_parse_iff by blast
  then show ?thesis
    by (cases "scrape_titles B w ua ts1 st") (simp add: scrape_titles_append)
qed

lemma scrape_titles_missing_recorded:
  assumes "fetch_json w (parse_params t) ua = Inr data" and "resp_parse data = None"
    and "t \<in> set ts"
  shows "\<lparr>error_title = t, error_message = ''Missing parse output for page: '' @ t\<rparr>
     \<in> set (snd (scrape_titles B w ua ts st))"
proof -
  obtain ts1 ts2 where ts: "ts = ts1 @ t # ts2"
    using assms(3) by (meson split_list)
  obtain its errs where r: "scrape_titles B w ua ts2
       (fst (scrape_titles B w ua ts1 st),
        snd (scrape_titles B w ua ts1 st)
          @ [\<lparr>error_title = t, error_message = ''Missing parse output for page: '' @ t\<rparr>])
      = (its, errs)"
    by fastforce
  from scrape_titles_errors_grow [OF r] show ?thesis
    unfolding ts scrape_titles_missing_step [OF assms(1,2)] r by simp
qed

text \<open>
  Claim C9. \<open>parse_item_page\<close> raises \<open>FetchError\<close> with the message
  \<open>Missing parse output for page: <title>\<close> exactly when the request is answered and the answer
  has no parse result. In the run this does not stop the loop: the entry \<open>{title, error}\<close> is
  appended to the errors and the loop goes on with the titles that follow, so that the
  document written holds the entry and accounts for every title.
\<close>

theorem missing_parse_recorded:
  "(parse_item_page B w t ua = Inl (FetchError (''Missing parse output for page: '' @ t))
      \<longleftrightarrow> (\<exists>data. fetch_json w (parse_params t) ua = Inr data \<and> resp_parse data = None))
   \<and> ((\<exists>data. fetch_json w (parse_params t) ua = Inr data \<and> resp_parse data = None) \<longrightarrow>
        scrape_titles B w ua (ts1 @ t # ts2) st =
          scrape_titles B w ua ts2
            (fst (scrape_titles B w ua ts1 st),
             snd (scrape_titles B w ua ts1 st)
               @ [\<lparr>error_title = t, error_message = ''Missing parse output for page: '' @ t\<rparr>]))
   \<and> ((\<exists>data. fetch_json w (parse_params t) ua = Inr data \<and> resp_parse data = None)
        \<and> discover_item_pages w ua = Some (Inr titles)
        \<and> t \<in> set (if limit > 0 then take (nat limit) titles else titles) \<longrightarrow>
        (\<exists>p. main B w stamp ua limit = Some (Inr p)
           \<and> \<lparr>error_title = t, error_message = ''Missing parse output for page: '' @ t\<rparr>
                \<in> set (errors p)
           \<and> length (items p) + length (errors p)
                = length (if limit > 0 then take (nat limit) titles else titles)))"
proof (intro conjI impI)
  show "parse_item_page B w t ua = Inl (FetchError (''Missing parse output for page: '' @ t))
      \<longleftrightarrow> (\<exists>data. fetch_json w (parse_params t) ua = Inr data \<and> resp_parse data = None)"
    by (rule missing_parse_iff)
next
  assume "\<exists>data. fetch_json w (parse_params t) ua = Inr data \<and> resp_parse data = None"
  then show "scrape_titles B w ua (ts1 @ t # ts2) st =
      scrape_titles B w ua ts2
        (fst (scrape_titles B w ua ts1 st),
         snd (scrape_titles B w ua ts1 st)
           @ [\<lparr>error_title = t, error_message = ''Missing parse output for page: '' @ t\<rparr>])"
    using scrape_titles_missing_step by blast
next
  let ?ts = "if limit > 0 then take (nat limit) titles else titles"
  assume a: "(\<exists>data. fetch_json w (parse_params t) ua = Inr data \<and> resp_parse data = None)
      \<and> discover_item_pages w ua = Some (Inr titles) \<and> t \<in> set ?ts"
  then obtain data where d: "fetch_json w (parse_params t) ua = Inr data" "resp_parse data = None"
    by blast
  obtain its errs where r: "scrape_titles B w ua ?ts ([], []) = (its, errs)"
    by fastforce
  have m: "main B w stamp ua limit = Some (Inr \<lparr>source = WIKI_BASE, scraped_at = stamp,
      item_count = length its, items = its, errors = errs\<rparr>)"
    using a r by (simp add: main_def Let_def)
  have "\<lparr>error_title = t, error_message = ''Missing parse output for page: '' @ t\<rparr> \<in> set errs"
    using scrape_titles_missing_recorded [OF d, of ?ts B "([], [])"] a r by simp
  moreover have "length its + length errs = length ?ts"
    using scrape_titles_length [OF r] by simp
  ultimately show "\<exists>p. main B w stamp ua limit = Some (Inr p)
      \<and> \<lparr>error_title = t, error_message = ''Missing parse output for page: '' @ t\<rparr> \<in> set (errors p)
      \<and> length (items p) + length (errors p) = length ?ts"
    using m by simp
qed

theorem missing_parse_recorded_witness:
  "(\<exists>data. fetch_json example_wiki (parse_params ''Gone'') ''ua'' = Inr data \<and> resp_parse data = None)
   \<and> discover_item_pages example_wiki ''ua'' = Some (Inr [''Flashlight'', ''Gone'', ''Map'', ''Toolbox''])
   \<and> ''Gone'' \<in> set (if (0::int) > 0 then take (nat 0) [''Flashlight'', ''Gone'', ''Map'', ''Toolbox'']
                       else [''Flashlight'', ''Gone'', ''Map'', ''Toolbox''])
   \<and> parse_item_page example_soup example_wiki ''Gone'' ''ua''
       = Inl (FetchError ''Missing parse output for page: Gone'')
   \<and> scrape_titles example_soup example_wiki ''ua'' ([''Flashlight''] @ ''Gone'' # [''Map'', ''Toolbox'']) ([], [])
       = scrape_titles example_soup example_wiki ''ua'' [''Map'', ''Toolbox'']
           (fst (scrape_titles example_soup example_wiki ''ua'' [''Flashlight''] ([], [])),
            snd (scrape_titles example_soup example_wiki ''ua'' [''Flashlight''] ([], []))
              @ [\<lparr>error_title = ''Gone'', error_message = ''Missing parse output for page: Gone''\<rparr>])
   \<and> (\<exists>p. main example_soup example_wiki ''2026-01-01T00:00:00+00:00'' ''ua'' 0 = Some (Inr p)
         \<and> \<lparr>error_title = ''Gone'', error_message = ''Missing parse output for page: Gone''\<rparr>
              \<in> set (errors p)
         \<and> length (items p) + length (errors p)
              = length [''Flashlight'', ''Gone'', ''Map'', ''Toolbox''])"
proof -
  have h1: "\<exists>data. fetch_json example_wiki (parse_params ''Gone'') ''ua'' = Inr data
      \<and> resp_parse data = None"
    by (simp add: example_fetch_gone example_answer_def)
  have h2: "discover_item_pages example_wiki ''ua''
      = Some (Inr [''Flashlight'', ''Gone'', ''Map'', ''Toolbox''])"
    by code_simp
  have h3: "''Gone'' \<in> set (if (0::int) > 0 then take (nat 0) [''Flashlight'', ''Gone'', ''Map'', ''Toolbox'']
                       else [''Flashlight'', ''Gone'', ''Map'', ''Toolbox''])"
    by simp
  from missing_parse_recorded [of example_soup example_wiki "''Gone''" "''ua''" "[''Flashlight'']"
      "[''Map'', ''Toolbox'']" "([], [])" "[''Flashlight'', ''Gone'', ''Map'', ''Toolbox'']" 0
      "''2026-01-01T00:00:00+00:00''"]
  show ?thesis
    using h1 h2 h3 by (simp del: scrape_titles.simps)
qed

subsection \<open>Cost\<close>

lemma image_currency_find:
  "image_currency imgs =
     (case List.find (\<lambda>img. image_hint (blob_of img) \<noteq> None) imgs of
        None \<Rightarrow> None
      | Some img \<Rightarrow> image_hint (blob_of img))"
  by (induction imgs) (auto simp: image_hint_def blob_of_def Let_def)

lemma hint_currency_text_hint: "hint_currency CURRENCY_HINTS l = text_hint l"
  by (simp add: CURRENCY_HINTS_def text_hint_def)

lemma currency_parse_cost_cell: "currency (parse_cost_cell (Some td)) = currency_spec td"
  by (auto simp: parse_cost_cell_def Let_def currency_spec_def image_currency_find
      hint_currency_text_hint visible_text_def split: option.splits dest: find_SomeD)

lemma search_amount_none: "(\<forall>c \<in> set text. \<not> isdigit c) \<Longrightarrow> search_amount text = None"
proof -
  assume "\<forall>c \<in> set text. \<not> isdigit c"
  then have d: "dropWhile (\<lambda>c. \<not> isdigit c) text = []"
    by simp
  show ?thesis
    unfolding search_amount_def d by simp
qed

lemma search_amount_run:
  assumes "\<forall>c \<in> set pre. \<not> isdigit c"
    and "run \<noteq> []" and "isdigit (hd run)"
    and "\<forall>c \<in> set run. isdigit c \<or> c = CHR '',''"
    and "post = [] \<or> \<not> (isdigit (hd post) \<or> hd post = CHR '','')"
  shows "search_amount (pre @ run @ post) = Some run"
proof -
  obtain d rest where run: "run = d # rest"
    using assms(2) by (cases run) auto
  have "dropWhile (\<lambda>c. \<not> isdigit c) (pre @ run @ post) = run @ post"
    using assms(1,3) run by (simp add: dropWhile_append)
  moreover have "takeWhile (\<lambda>c. isdigit c \<or> c = CHR '','') (rest @ post) = rest"
  proof (cases post)
    case Nil
    then show ?thesis
      using assms(4) run by simp
  next
    case (Cons p ps)
    then show ?thesis
      using assms(4,5) run by (simp add: takeWhile_append)
  qed
  ultimately show ?thesis
    by (simp add: search_amount_def run)
qed

lemma amount_parse_cost_cell:
  "amount (parse_cost_cell (Some td)) =
     map_option (\<lambda>g. int_of_digits (filter (\<lambda>x. x \<noteq> CHR '','') g)) (search_amount (visible_text td))"
  by (auto simp: parse_cost_cell_def Let_def visible_text_def replace_empty split: option.splits)

text \<open>
  Claim C5. The currency of a cost cell is that of the first image of the cell, in order,
  whose \<open>alt\<close> and \<open>src\<close> hold a hint, the hints tried in the order \<open>bloodpoints\<close>, \<open>shards\<close>
  (\<open>iridescent_shards\<close>), \<open>auric\<close> or \<open>cells\<close> (\<open>auric_cells\<close>); without such an image it is that
  of the first hint found in the visible text in lower case, in the order \<open>bloodpoints\<close>, \<open>bp\<close>,
  \<open>iridescent shards\<close>, \<open>shards\<close>, \<open>auric cells\<close>, \<open>cells\<close>. The amount is the number written by the
  first run of digits and commas that starts with a digit, the commas left out, and is unset
  when the text has no digit. Either field can be set without the other: \<open>"Cost: 6,000"\<close>
  gives \<open>{amount: 6000, currency: null}\<close>.
\<close>

theorem cost_cell_currency_and_amount:
  "currency (parse_cost_cell (Some td)) = currency_spec td
   \<and> ((\<forall>c \<in> set (visible_text td). \<not> isdigit c) \<longrightarrow> amount (parse_cost_cell (Some td)) = None)
   \<and> (visible_text td = pre @ run @ post
        \<and> (\<forall>c \<in> set pre. \<not> isdigit c)
        \<and> run \<noteq> [] \<and> isdigit (hd run) \<and> (\<forall>c \<in> set run. isdigit c \<or> c = CHR '','')
        \<and> (post = [] \<or> \<not> (isdigit (hd post) \<or> hd post = CHR '',''))
      \<longrightarrow> amount (parse_cost_cell (Some td))
            = Some (int_of_digits (filter (\<lambda>c. c \<noteq> CHR '','') run)))
   \<and> parse_cost_cell (Some (cell [Text ''Cost: 6,000''])) = \<lparr>amount = Some 6000, currency = None\<rparr>
   \<and> parse_cost_cell (Some (cell [Text ''Auric Cells''])) = \<lparr>amount = None, currency = Some ''auric_cells''\<rparr>
   \<and> parse_cost_cell
        (Some (cell [Element ''img'' [(''alt'', ''Bloodpoints icon''), (''src'', ''/images/bp.png'')] [],
                     Text '' 5,500'']))
       = \<lparr>amount = Some 5500, currency = Some ''bloodpoints''\<rparr>"
proof (intro conjI impI)
  show "currency (parse_cost_cell (Some td)) = currency_spec td"
    by (rule currency_parse_cost_cell)
next
  assume "\<forall>c \<in> set (visible_text td). \<not> isdigit c"
  then show "amount (parse_cost_cell (Some td)) = None"
    by (simp add: amount_parse_cost_cell search_amount_none)
next
  assume a: "visible_text td = pre @ run @ post
        \<and> (\<forall>c \<in> set pre. \<not> isdigit c)
        \<and> run \<noteq> [] \<and> isdigit (hd run) \<and> (\<forall>c \<in> set run. isdigit c \<or> c = CHR '','')
        \<and> (post = [] \<or> \<not> (isdigit (hd post) \<or> hd post = CHR '',''))"
  then have "search_amount (visible_text td) = Some run"
    using search_amount_run [of pre run post] by simp
  then show "amount (parse_cost_cell (Some td))
      = Some (int_of_digits (filter (\<lambda>c. c \<noteq> CHR '','') run))"
    by (simp add: amount_parse_cost_cell)
next
  show "parse_cost_cell (Some (cell [Text ''Cost: 6,000''])) = \<lparr>amount = Some 6000, currency = None\<rparr>"
    by code_simp
next
  show "parse_cost_cell (Some (cell [Text ''Auric Cells'']))
      = \<lparr>amount = None, currency = Some ''auric_cells''\<rparr>"
    by code_simp
next
  show "parse_cost_cell
        (Some (cell [Element ''img'' [(''alt'', ''Bloodpoints icon''), (''src'', ''/images/bp.png'')] [],
                     Text '' 5,500'']))
       = \<lparr>amount = Some 5500, currency = Some ''bloodpoints''\<rparr>"
    by code_simp
qed

theorem cost_cell_currency_and_amount_witness:
  "amount (parse_cost_cell (Some (cell [Text ''Auric Cells'']))) = None
   \<and> visible_text (cell [Text ''Price 1,250 Shards'']) = ''Price '' @ ''1,250'' @ '' Shards''
   \<and> amount (parse_cost_cell (Some (cell [Text ''Price 1,250 Shards''])))
       = Some (int_of_digits (filter (\<lambda>c. c \<noteq> CHR '','') ''1,250''))
   \<and> int_of_digits (filter (\<lambda>c. c \<noteq> CHR '','') ''1,250'') = 1250
   \<and> currency (parse_cost_cell (Some (cell [Text ''Price 1,250 Shards''])))
       = currency_spec (cell [Text ''Price 1,250 Shards''])
   \<and> currency_spec (cell [Text ''Price 1,250 Shards'']) = Some ''iridescent_shards''"
proof -
  have h1: "\<forall>c \<in> set (visible_text (cell [Text ''Auric Cells''])). \<not> isdigit c"
    by code_simp
  have h2: "visible_text (cell [Text ''Price 1,250 Shards'']) = ''Price '' @ ''1,250'' @ '' Shards''"
    by code_simp
  have h3: "\<forall>c \<in> set ''Price ''. \<not> isdigit c"
    by code_simp
  have h4: "''1,250'' \<noteq> [] \<and> isdigit (hd ''1,250'') \<and> (\<forall>c \<in> set ''1,250''. isdigit c \<or> c = CHR '','')"
    by code_simp
  have h5: "'' Shards'' = [] \<or> \<not> (isdigit (hd '' Shards'') \<or> hd '' Shards'' = CHR '','')"
    by code_simp
  have v: "int_of_digits (filter (\<lambda>c. c \<noteq> CHR '','') ''1,250'') = 1250"
    by code_simp
  have s: "currency_spec (cell [Text ''Price 1,250 Shards'']) = Some ''iridescent_shards''"
    by code_simp
  have a: "amount (parse_cost_cell (Some (cell [Text ''Auric Cells'']))) = None"
    using cost_cell_currency_and_amount [of "cell [Text ''Auric Cells'']"] h1 by blast
  have b: "amount (parse_cost_cell (Some (cell [Text ''Price 1,250 Shards''])))
       = Some (int_of_digits (filter (\<lambda>c. c \<noteq> CHR '','') ''1,250''))
     \<and> currency (parse_cost_cell (Some (cell [Text ''Price 1,250 Shards''])))
       = currency_spec (cell [Text ''Price 1,250 Shards''])"
    using cost_cell_currency_and_amount [of "cell [Text ''Price 1,250 Shards'']" "''Price ''"
        "''1,250''" "'' Shards''"] h2 h3 h4 h5 by blast
  show ?thesis
    using h2 v s a b by blast
qed

subsection \<open>Normalised text is a fixed point\<close>


lemma spaced_Cons:
  "spaced (c # xs) =
     (if xs = [] then \<not> isspace c
      else (isspace c \<longrightarrow> c = CHR '' '' \<and> \<not> isspace (hd xs)) \<and> spaced xs)"
  by (cases xs) auto

lemma drop_space_before_punct_Nil [simp]: "drop_space_before_punct s = [] \<longleftrightarrow> s = []"
  by (induction s rule: drop_space_before_punct.induct) auto

lemma not_isspace_not_space: "\<not> isspace c \<Longrightarrow> c \<noteq> CHR '' ''"
  by auto

lemma hd_drop_space_before_punct:
  "s \<noteq> [] \<Longrightarrow> \<not> isspace (hd s) \<Longrightarrow> hd (drop_space_before_punct s) = hd s"
  by (cases s) (auto simp: drop_space_before_punct_Cons dest: not_isspace_not_space)

lemma spaced_drop_space_before_punct: "spaced s \<Longrightarrow> spaced (drop_space_before_punct s)"
proof (induction s rule: drop_space_before_punct.induct)
  case (3 c d cs)
  from 3(3) have sdc: "spaced (d # cs)" and cd: "isspace c \<longrightarrow> c = CHR '' '' \<and> \<not> isspace d"
    by simp_all
  have sp: "spaced (drop_space_before_punct (d # cs))"
    using 3(1,2) sdc by blast
  show ?case
  proof (cases "c = CHR '' '' \<and> ispunct d")
    case True
    with sp show ?thesis by simp
  next
    case False
    have ne: "drop_space_before_punct (d # cs) \<noteq> []"
      by simp
    have h: "isspace c \<longrightarrow> \<not> isspace (hd (drop_space_before_punct (d # cs)))"
      using cd hd_drop_space_before_punct [of "d # cs"] by simp
    have "spaced (c # drop_space_before_punct (d # cs))"
      unfolding spaced_Cons using ne h cd sp by simp
    with False show ?thesis by auto
  qed
qed simp_all

lemma nospp_Cons:
  "nospp (c # xs) = ((xs = [] \<or> \<not> (c = CHR '' '' \<and> ispunct (hd xs))) \<and> nospp xs)"
  by (cases xs) auto

lemma nospp_drop_space_before_punct: "spaced s \<Longrightarrow> nospp (drop_space_before_punct s)"
proof (induction s rule: drop_space_before_punct.induct)
  case (3 c d cs)
  from 3(3) have sdc: "spaced (d # cs)" and cd: "isspace c \<longrightarrow> c = CHR '' '' \<and> \<not> isspace d"
    by simp_all
  have n: "nospp (drop_space_before_punct (d # cs))"
    using 3(1,2) sdc by blast
  show ?case
  proof (cases "c = CHR '' '' \<and> ispunct d")
    case True
    with n show ?thesis by simp
  next
    case False
    have "nospp (c # drop_space_before_punct (d # cs))"
    proof (cases "c = CHR '' ''")
      case True
      with cd False have d: "\<not> isspace d" "\<not> ispunct d"
        by auto
      then have "drop_space_before_punct (d # cs) = d # drop_space_before_punct cs"
        by (intro drop_space_before_punct_Cons not_isspace_not_space)
      with n d show ?thesis by simp
    next
      case False
      with n show ?thesis by (simp add: nospp_Cons)
    qed
    with False show ?thesis by auto
  qed
qed simp_all

lemma rstrip_prefix: "\<exists>zs. d = rev (dropWhile P (rev d)) @ zs"
proof -
  have "rev (takeWhile P (rev d) @ dropWhile P (rev d)) = d"
    by (simp only: takeWhile_dropWhile_id rev_rev_ident)
  then have "d = rev (dropWhile P (rev d)) @ rev (takeWhile P (rev d))"
    by (simp only: rev_append)
  then show ?thesis by blast
qed

lemma hd_strip: "strip s = [] \<or> \<not> isspace (hd (strip s))"
proof (cases "strip s = []")
  case False
  let ?d = "dropWhile isspace s"
  have d: "?d = [] \<or> \<not> isspace (hd ?d)"
    by (metis hd_dropWhile)
  obtain zs where z: "?d = strip s @ zs"
    using rstrip_prefix [of ?d isspace] by (auto simp: strip_def)
  with False have "hd ?d = hd (strip s)" and "?d \<noteq> []"
    by (cases "strip s"; simp)+
  with d show ?thesis by metis
qed simp

lemma tidy_clean:
  assumes "clean_text (Some s) = Some t"
  shows "tidy t"
proof -
  let ?u = "strip (multispace_sub s)"
  have c: "collapsed (multispace_sub s)"
    by (simp add: multispace_sub_collapse_runs collapsed_collapse_runs)
  have sp: "spaced ?u"
    using c by (rule spaced_strip)
  have t: "t = drop_space_before_punct ?u"
    using assms space_before_punct_sub_spaced [OF sp]
    by (auto simp: clean_text_def Let_def split: if_splits)
  have "?u = [] \<or> \<not> isspace (hd ?u)"
    by (rule hd_strip)
  then have "t = [] \<or> \<not> isspace (hd t)"
    unfolding t by (auto simp: hd_drop_space_before_punct)
  then show ?thesis
    unfolding tidy_def t
    using spaced_drop_space_before_punct [OF sp] nospp_drop_space_before_punct [OF sp] by simp
qed

lemma collapse_runs_collapsed: "collapsed t \<Longrightarrow> collapse_runs t = t"
  by (induction t rule: collapse_runs.induct) auto

lemma strip_tidy: "tidy t \<Longrightarrow> strip t = t"
proof -
  assume t: "tidy t"
  then have 1: "dropWhile isspace t = t"
    by (cases t) (auto simp: tidy_def)
  have "t = [] \<or> \<not> isspace (last t)"
    using t by (auto simp: tidy_def spaced_collapsed)
  then have 2: "dropWhile isspace (rev t) = rev t"
    by (cases t rule: rev_cases) auto
  show ?thesis
    by (simp add: strip_def 1 2)
qed

lemma drop_space_before_punct_nospp: "nospp t \<Longrightarrow> drop_space_before_punct t = t"
  by (induction t rule: drop_space_before_punct.induct) auto

lemma clean_text_tidy:
  assumes "tidy t" and "t \<noteq> []"
  shows "clean_text (Some t) = Some t"
proof -
  have c: "collapsed t"
    using assms(1) by (simp add: tidy_def spaced_collapsed)
  have 1: "multispace_sub t = t"
    by (simp add: multispace_sub_collapse_runs collapse_runs_collapsed c)
  have 2: "space_before_punct_sub t = t"
    using assms(1) by (simp add: tidy_def space_before_punct_sub_spaced drop_space_before_punct_nospp)
  show ?thesis
    using assms(2) by (simp add: clean_text_def 1 2 strip_tidy [OF assms(1)])
qed

lemma clean_text_idem:
  assumes "clean_text (Some s) = Some t"
  shows "strip t = t" and "clean_text (Some t) = Some t"
proof -
  have t: "tidy t" using assms by (rule tidy_clean)
  have "t \<noteq> []" using assms by (auto simp: clean_text_def Let_def split: if_splits)
  then show "clean_text (Some t) = Some t" using t by (rule clean_text_tidy[rotated])
  show "strip t = t" using t by (rule strip_tidy)
qed


lemma set_collapse_runs: "\<not> isspace x \<Longrightarrow> x \<in> set (collapse_runs s) \<longleftrightarrow> x \<in> set s"
  by (induction s rule: collapse_runs.induct) auto

lemma set_dropWhile_not: "\<not> P x \<Longrightarrow> x \<in> set (dropWhile P s) \<longleftrightarrow> x \<in> set s"
  by (induction s) auto

lemma set_strip: "\<not> isspace x \<Longrightarrow> x \<in> set (strip s) \<longleftrightarrow> x \<in> set s"
  by (simp add: strip_def set_dropWhile_not)

lemma set_drop_space_before_punct:
  "x \<noteq> CHR '' '' \<Longrightarrow> x \<in> set (drop_space_before_punct s) \<longleftrightarrow> x \<in> set s"
  by (induction s rule: drop_space_before_punct.induct) auto

lemma clean_text_normalise:
  "clean_text (Some s) = (if normalise s = [] then None else Some (normalise s))"
  by (simp add: clean_text_def normalise_def Let_def)

lemma normalise_spec: "normalise s = drop_space_before_punct (strip (collapse_runs s))"
proof -
  have "collapsed (multispace_sub s)"
    by (simp add: multispace_sub_collapse_runs collapsed_collapse_runs)
  then have "spaced (strip (multispace_sub s))"
    by (rule spaced_strip)
  then show ?thesis
    by (simp add: normalise_def space_before_punct_sub_spaced multispace_sub_collapse_runs)
qed

lemma set_normalise: "\<not> isspace x \<Longrightarrow> x \<in> set (normalise s) \<longleftrightarrow> x \<in> set s"
  by (simp add: normalise_spec set_drop_space_before_punct set_strip set_collapse_runs
      not_isspace_not_space)

lemma normalise_Nil: "normalise s = [] \<longleftrightarrow> (\<forall>c \<in> set s. isspace c)"
proof
  assume n: "normalise s = []"
  show "\<forall>c \<in> set s. isspace c"
  proof (rule ccontr)
    assume "\<not> (\<forall>c \<in> set s. isspace c)"
    then obtain x where "x \<in> set s" "\<not> isspace x" by blast
    then have "x \<in> set (normalise s)" by (simp add: set_normalise)
    with n show False by simp
  qed
next
  assume a: "\<forall>c \<in> set s. isspace c"
  have "strip (collapse_runs s) = [] \<or> \<not> isspace (hd (strip (collapse_runs s)))"
    by (rule hd_strip)
  moreover have "strip (collapse_runs s) \<noteq> [] \<Longrightarrow> hd (strip (collapse_runs s)) \<in> set s"
  proof -
    assume ne: "strip (collapse_runs s) \<noteq> []"
    with calculation have ns: "\<not> isspace (hd (strip (collapse_runs s)))" by simp
    have "hd (strip (collapse_runs s)) \<in> set (strip (collapse_runs s))"
      using ne by simp
    then show ?thesis
      using ns by (simp add: set_strip set_collapse_runs)
  qed
  ultimately have "strip (collapse_runs s) = []"
    using a by blast
  then show "normalise s = []"
    by (simp add: normalise_spec)
qed

lemma set_join_space:
  "\<not> isspace x \<Longrightarrow> x \<in> set (join '' '' xs) \<longleftrightarrow> (\<exists>s \<in> set xs. x \<in> set s)"
  by (induction "'' ''" xs rule: join.induct) auto

lemma set_get_text:
  "\<not> isspace x \<Longrightarrow> x \<in> set (get_text t) \<longleftrightarrow> (\<exists>s \<in> set (strings (node t)). x \<in> set s)"
proof -
  assume x: "\<not> isspace x"
  have "strip s \<noteq> []" if "x \<in> set s" for s
  proof -
    have "x \<in> set (strip s)"
      using x that by (simp add: set_strip)
    then show ?thesis by auto
  qed
  then show ?thesis
    using x by (auto simp: get_text_def set_join_space set_strip)
qed

lemma raw_text_populated:
  "clean_text (Some (get_text t)) \<noteq> None
   \<longleftrightarrow> (\<exists>s \<in> set (strings (node t)). \<exists>c \<in> set s. \<not> isspace c)"
proof -
  have "clean_text (Some (get_text t)) \<noteq> None \<longleftrightarrow> (\<exists>c \<in> set (get_text t). \<not> isspace c)"
    by (simp add: clean_text_normalise normalise_Nil)
  also have "\<dots> \<longleftrightarrow> (\<exists>s \<in> set (strings (node t)). \<exists>c \<in> set s. \<not> isspace c)"
    using set_get_text by blast
  finally show ?thesis .
qed

lemma quote_not_space: "\<not> isspace (CHR 0x22)"
  by (simp add: isspace_def)

lemma flavor_of_find:
  "clean_text (flavor_of itals) =
     (case List.find (\<lambda>i. CHR 0x22 \<in> set (get_text i)) itals of
        None \<Rightarrow> None
      | Some i \<Rightarrow> clean_text (Some (get_text i)))"
proof (induction itals)
  case Nil
  show ?case by (simp add: clean_text_def)
next
  case (Cons i itals)
  show ?case
  proof (cases "clean_text (Some (get_text i))")
    case None
    then have "\<forall>c \<in> set (get_text i). isspace c"
      by (simp add: clean_text_normalise normalise_Nil split: if_splits)
    then have "CHR 0x22 \<notin> set (get_text i)"
      using quote_not_space by blast
    with None Cons show ?thesis by simp
  next
    case (Some t)
    then have t: "t = normalise (get_text i)"
      by (simp add: clean_text_normalise split: if_splits)
    have q: "CHR 0x22 \<in> set t \<longleftrightarrow> CHR 0x22 \<in> set (get_text i)"
      unfolding t using quote_not_space by (rule set_normalise)
    show ?thesis
    proof (cases "CHR 0x22 \<in> set t")
      case True
      with Some q clean_text_idem [OF Some] show ?thesis by simp
    next
      case False
      with Some q Cons show ?thesis by simp
    qed
  qed
qed

lemma flavor_text_extract:
  "flavor_text (extract_description_parts (Some td)) = flavor_spec td"
  by (simp add: extract_description_parts_def Let_def flavor_spec_def flavor_of_find)

lemma raw_text_extract:
  "raw_text (extract_description_parts (Some td)) = clean_text (Some (get_text td))"
  by (simp add: extract_description_parts_def Let_def)

subsection \<open>The tree and the description\<close>


lemma descendants_among_children:
  "descendants_among anc prev cs = concat (map (\<lambda>c. c # descendants c) (child_tags anc prev cs))"
  by (induction cs arbitrary: prev) (simp_all add: descendants_def)

lemma descendants_children: "descendants t = concat (map (\<lambda>c. c # descendants c) (children t))"
proof (cases "node t")
  case (Text s)
  then show ?thesis by (simp add: descendants_def children_def)
next
  case (Element n a cs)
  then show ?thesis
    by (simp add: descendants_def children_def descendants_among_children)
qed

lemma find_append:
  "List.find P (xs @ ys) = (case List.find P xs of None \<Rightarrow> List.find P ys | Some x \<Rightarrow> Some x)"
  by (induction xs) auto

lemma find_concat_skip:
  assumes "\<forall>c \<in> set before. \<forall>x \<in> set (f c). \<not> P x"
  shows "List.find P (concat (map f (before @ rest))) = List.find P (concat (map f rest))"
proof -
  have "List.find P (concat (map f before)) = None"
    using assms by (auto simp: find_None_iff)
  then show ?thesis
    by (simp add: find_append)
qed

lemma find_tag_direct_child:
  assumes "children td = before @ u # after" and "is_named nm u"
    and "\<forall>c \<in> set before. \<not> is_named nm c \<and> find_tag c nm = None"
  shows "find_tag td nm = Some u"
proof -
  have "\<forall>c \<in> set before. \<forall>x \<in> set (c # descendants c). \<not> is_named nm x"
    using assms(3) by (auto simp: find_tag_def find_None_iff)
  then have "find_tag td nm
      = List.find (is_named nm) (concat (map (\<lambda>c. c # descendants c) (u # after)))"
    unfolding find_tag_def descendants_children [of td] assms(1)
    by (rule find_concat_skip)
  then show ?thesis
    using assms(2) by simp
qed

lemma summary_parts_until:
  assumes "is_named ''ul'' u" and "\<forall>c \<in> set before. \<not> is_named ''ul'' c"
  shows "summary_parts (before @ u # after)
     = List.map_filter (\<lambda>c. clean_text (Some (child_text c))) before"
  using assms by (induction before) (auto simp: List.map_filter_simps split: option.splits)

lemma effects_of_map_filter:
  "effects_of lis = List.map_filter (\<lambda>li. clean_text (Some (get_text li))) lis"
  by (induction lis) (auto simp: List.map_filter_simps split: option.splits)

lemma clean_text_empty: "clean_text (Some []) = None"
  by (simp add: clean_text_def strip_def)

lemma extract_with_list:
  assumes "children td = before @ u # after" and "is_named ''ul'' u"
    and "\<forall>c \<in> set before. \<not> is_named ''ul'' c \<and> find_tag c ''ul'' = None"
  shows "summary (extract_description_parts (Some td))
       = clean_text (Some (join '' '' (List.map_filter (\<lambda>c. clean_text (Some (child_text c))) before)))"
    and "effects (extract_description_parts (Some td))
       = List.map_filter (\<lambda>li. clean_text (Some (get_text li))) (find_all u ''li'')"
proof -
  have f: "find_tag td ''ul'' = Some u"
    using assms by (rule find_tag_direct_child)
  have s: "summary_parts (children td)
      = List.map_filter (\<lambda>c. clean_text (Some (child_text c))) before"
    unfolding assms(1) using assms(2,3) by (intro summary_parts_until) auto
  show "summary (extract_description_parts (Some td))
       = clean_text (Some (join '' '' (List.map_filter (\<lambda>c. clean_text (Some (child_text c))) before)))"
    by (simp add: extract_description_parts_def Let_def f s)
  show "effects (extract_description_parts (Some td))
       = List.map_filter (\<lambda>li. clean_text (Some (get_text li))) (find_all u ''li'')"
    by (simp add: extract_description_parts_def Let_def f effects_of_map_filter)
qed

lemma extract_without_list:
  assumes "find_tag td ''ul'' = None"
  shows "summary (extract_description_parts (Some td)) = None"
    and "effects (extract_description_parts (Some td)) = []"
  using assms by (simp_all add: extract_description_parts_def Let_def clean_text_empty)


text \<open>
  Claim C7, as amended. \<open>flavor_text\<close> is the normalised text of the first \<open>i\<close> inside a \<open>p\<close>,
  in document order, whose text holds a quotation mark, and is unset without one. \<open>raw_text\<close>
  is the normalised text of the whole cell; it is set exactly when a string of the cell holds
  a character that is no whitespace, and unset for a cell without text.
\<close>

theorem flavor_and_raw_text:
  "flavor_text (extract_description_parts (Some td)) = flavor_spec td
   \<and> raw_text (extract_description_parts (Some td)) = clean_text (Some (get_text td))
   \<and> (raw_text (extract_description_parts (Some td)) \<noteq> None
        \<longleftrightarrow> (\<exists>s \<in> set (strings (node td)). \<exists>c \<in> set s. \<not> isspace c))"
  using raw_text_populated [of td] by (simp add: flavor_text_extract raw_text_extract)

theorem flavor_and_raw_text_witness:
  "flavor_text (extract_description_parts (Some example_description))
       = Some (CHR 0x22 # ''Fortune favors the bold.'' @ [CHR 0x22])
   \<and> raw_text (extract_description_parts (Some example_description))
       = Some (''Boosts your luck. item 1 item 2. '' @ CHR 0x22 # ''Fortune favors the bold.'' @ [CHR 0x22])
   \<and> raw_text (extract_description_parts (Some example_description)) \<noteq> None"
proof -
  have f: "flavor_spec example_description = Some (CHR 0x22 # ''Fortune favors the bold.'' @ [CHR 0x22])"
    by code_simp
  have r: "clean_text (Some (get_text example_description))
      = Some (''Boosts your luck. item 1 item 2. '' @ CHR 0x22 # ''Fortune favors the bold.'' @ [CHR 0x22])"
    by code_simp
  have e: "\<exists>s \<in> set (strings (node example_description)). \<exists>c \<in> set s. \<not> isspace c"
    by code_simp
  from flavor_and_raw_text [of example_description] show ?thesis
    using f r e by simp
qed

theorem raw_text_unset_counterexample:
  "raw_text (extract_description_parts (Some example_image_cell)) = None"
  by code_simp

subsection \<open>Words\<close>

lemma split_Nil [simp]: "split [] = []"
  by (subst split.simps) simp

lemma split_Nil_iff: "split s = [] \<longleftrightarrow> (\<forall>c \<in> set s. isspace c)"
proof (cases "dropWhile isspace s")
  case Nil
  then have "split s = []"
    by (subst split.simps) (simp only: list.case)
  moreover have "\<forall>c \<in> set s. isspace c"
    using Nil by (simp add: dropWhile_eq_Nil_conv)
  ultimately show ?thesis by simp
next
  case (Cons x xs)
  then have "\<not> (\<forall>c \<in> set s. isspace c)"
    by (metis dropWhile_eq_Nil_conv list.distinct(1))
  moreover have "split s \<noteq> []"
    using Cons by (subst split.simps) (simp only: list.case, simp)
  ultimately show ?thesis by simp
qed

lemma split_dropWhile: "split (dropWhile isspace s) = split s"
  by (subst split.simps, subst (2) split.simps) simp

lemma split_Cons_space: "isspace c \<Longrightarrow> split (c # s) = split s"
  using split_dropWhile [of "c # s"] split_dropWhile [of s] by simp

lemma split_Cons_nonspace:
  "\<not> isspace c \<Longrightarrow>
   split (c # s) = (c # takeWhile (\<lambda>x. \<not> isspace x) s) # split (dropWhile (\<lambda>x. \<not> isspace x) s)"
  by (subst split.simps) simp

lemma split_append_space:
  "isspace c \<Longrightarrow> split (a @ c # b) = split a @ split b"
proof (induction a rule: length_induct)
  case (1 a)
  show ?case
  proof (cases "dropWhile isspace a")
    case Nil
    then have all: "\<forall>x \<in> set a. isspace x"
      by (simp add: dropWhile_eq_Nil_conv)
    then have "dropWhile isspace (a @ c # b) = dropWhile isspace b"
      using 1(2) by (simp add: dropWhile_append)
    then have "split (a @ c # b) = split b"
      by (metis split_dropWhile)
    moreover have "split a = []"
      using all by (simp add: split_Nil_iff)
    ultimately show ?thesis by simp
  next
    case (Cons x xs)
    then have x: "\<not> isspace x"
      by (metis hd_dropWhile list.distinct(1) list.sel(1))
    let ?r = "dropWhile (\<lambda>x. \<not> isspace x) xs"
    have len: "length ?r < length a"
    proof -
      have "length ?r \<le> length xs" by (rule length_dropWhile_le)
      moreover have "length (x # xs) \<le> length a"
        using Cons by (metis length_dropWhile_le)
      ultimately show ?thesis by simp
    qed
    have da: "dropWhile isspace (a @ c # b) = x # xs @ c # b"
    proof -
      obtain y where "y \<in> set a" "\<not> isspace y"
        using Cons by (metis dropWhile_eq_Nil_conv list.distinct(1))
      then have "dropWhile isspace (a @ c # b) = dropWhile isspace a @ c # b"
        by (rule dropWhile_append1)
      then show ?thesis
        using Cons by simp
    qed
    have tw: "takeWhile (\<lambda>x. \<not> isspace x) (xs @ c # b) = takeWhile (\<lambda>x. \<not> isspace x) xs"
    proof (cases "\<forall>x \<in> set xs. \<not> isspace x")
      case True
      then have t: "takeWhile (\<lambda>x. \<not> isspace x) xs = xs"
        by (simp add: takeWhile_eq_all_conv)
      have "takeWhile (\<lambda>x. \<not> isspace x) (xs @ c # b)
          = xs @ takeWhile (\<lambda>x. \<not> isspace x) (c # b)"
        using True by (intro takeWhile_append2) simp
      also have "\<dots> = xs"
        using 1(2) by simp
      finally show ?thesis
        unfolding t .
    next
      case False
      then show ?thesis
        by (auto simp: takeWhile_append)
    qed
    have dw: "dropWhile (\<lambda>x. \<not> isspace x) (xs @ c # b) = ?r @ c # b"
    proof (cases "\<forall>x \<in> set xs. \<not> isspace x")
      case True
      then have d: "dropWhile (\<lambda>x. \<not> isspace x) xs = []"
        by (simp add: dropWhile_eq_Nil_conv)
      have "dropWhile (\<lambda>x. \<not> isspace x) (xs @ c # b)
          = dropWhile (\<lambda>x. \<not> isspace x) (c # b)"
        using True by (intro dropWhile_append2) simp
      also have "\<dots> = c # b"
        using 1(2) by simp
      finally show ?thesis
        unfolding d by simp
    next
      case False
      then show ?thesis
        by (auto simp: dropWhile_append)
    qed
    have "split (a @ c # b) = split (x # xs @ c # b)"
      using da by (metis split_dropWhile)
    also have "\<dots> = (x # takeWhile (\<lambda>x. \<not> isspace x) xs) # split (?r @ c # b)"
      using x by (simp add: split_Cons_nonspace tw dw)
    also have "split (?r @ c # b) = split ?r @ split b"
      using 1(1) len 1(2) by blast
    finally have "split (a @ c # b)
        = ((x # takeWhile (\<lambda>x. \<not> isspace x) xs) # split ?r) @ split b"
      by simp
    moreover have "split a = (x # takeWhile (\<lambda>x. \<not> isspace x) xs) # split ?r"
      using Cons x by (metis split_dropWhile split_Cons_nonspace)
    ultimately show ?thesis by simp
  qed
qed

lemma split_join: "split (join '' '' xs) = concat (map split xs)"
proof (induction "'' ''" xs rule: join.induct)
  case 1
  show ?case by (simp add: split_Nil_iff)
next
  case (2 x)
  show ?case by simp
next
  case (3 x y ys)
  have "split (x @ CHR '' '' # join '' '' (y # ys)) = split x @ split (join '' '' (y # ys))"
    by (rule split_append_space) simp
  with 3 show ?case by simp
qed

lemma split_append_spaces:
  assumes "\<forall>c \<in> set ws. isspace c"
  shows "split (a @ ws) = split a"
proof (cases ws)
  case Nil
  then show ?thesis by simp
next
  case (Cons c cs)
  with assms have "isspace c" and "split cs = []"
    by (simp_all add: split_Nil_iff)
  then show ?thesis
    using split_append_space [of c a cs] Cons by simp
qed

lemma rstrip_decomp:
  "\<exists>ws. s = rev (dropWhile P (rev s)) @ ws \<and> (\<forall>c \<in> set ws. P c)"
proof -
  have "rev (takeWhile P (rev s) @ dropWhile P (rev s)) = s"
    by (simp only: takeWhile_dropWhile_id rev_rev_ident)
  then have "s = rev (dropWhile P (rev s)) @ rev (takeWhile P (rev s))"
    by (simp only: rev_append)
  moreover have "\<forall>c \<in> set (rev (takeWhile P (rev s))). P c"
    by (auto dest: set_takeWhileD)
  ultimately show ?thesis by blast
qed

lemma split_strip: "split (strip s) = split s"
proof -
  obtain ws where ws: "dropWhile isspace s = strip s @ ws" "\<forall>c \<in> set ws. isspace c"
    using rstrip_decomp [of "dropWhile isspace s" isspace] by (auto simp: strip_def)
  have "split s = split (dropWhile isspace s)"
    by (simp add: split_dropWhile)
  also have "\<dots> = split (strip s)"
    unfolding ws(1) using ws(2) by (rule split_append_spaces)
  finally show ?thesis by simp
qed


lemma takeWhile_multispace_sub:
  "takeWhile (\<lambda>x. \<not> isspace x) (multispace_sub s) = takeWhile (\<lambda>x. \<not> isspace x) s"
  by (induction s) auto

lemma dropWhile_multispace_sub:
  "dropWhile (\<lambda>x. \<not> isspace x) (multispace_sub s) = multispace_sub (dropWhile (\<lambda>x. \<not> isspace x) s)"
  by (induction s) auto

lemma split_multispace_sub: "split (multispace_sub s) = split s"
proof (induction s rule: length_induct)
  case (1 s)
  show ?case
  proof (cases s)
    case Nil
    then show ?thesis by simp
  next
    case (Cons c cs)
    show ?thesis
    proof (cases "isspace c")
      case True
      have "length (dropWhile isspace cs) < length s"
        using Cons length_dropWhile_le [of isspace cs] by simp
      then have "split (multispace_sub (dropWhile isspace cs)) = split (dropWhile isspace cs)"
        using 1 by blast
      then show ?thesis
        using True Cons by (simp add: split_Cons_space split_dropWhile)
    next
      case False
      let ?r = "dropWhile (\<lambda>x. \<not> isspace x) cs"
      have "length ?r < length s"
        using Cons length_dropWhile_le [of "\<lambda>x. \<not> isspace x" cs] by simp
      then have "split (multispace_sub ?r) = split ?r"
        using 1 by blast
      then show ?thesis
        using False Cons
        by (simp add: split_Cons_nonspace takeWhile_multispace_sub dropWhile_multispace_sub)
    qed
  qed
qed

lemma spaced_suffix: "spaced (a @ b) \<Longrightarrow> spaced b"
proof (induction a)
  case Nil
  then show ?case by simp
next
  case (Cons c a)
  show ?case
  proof (cases "a @ b")
    case Nil
    then show ?thesis by simp
  next
    case (Cons x xs)
    with Cons.prems have "spaced (a @ b)" by simp
    then show ?thesis by (rule Cons.IH)
  qed
qed

lemma join_split_single_spaced: "single_spaced u \<Longrightarrow> join '' '' (split u) = u"
proof (induction u rule: length_induct)
  case (1 u)
  show ?case
  proof (cases u)
    case Nil
    then show ?thesis by (simp add: split_Nil_iff)
  next
    case (Cons x xs)
    with 1(2) have x: "\<not> isspace x" and sp: "spaced (x # xs)"
      by (simp_all add: single_spaced_def)
    let ?w = "x # takeWhile (\<lambda>x. \<not> isspace x) xs"
    let ?r = "dropWhile (\<lambda>x. \<not> isspace x) xs"
    have u: "u = ?w @ ?r"
      using Cons by simp
    have s: "split u = ?w # split ?r"
      using Cons x by (simp add: split_Cons_nonspace)
    show ?thesis
    proof (cases ?r)
      case Nil
      have "split ?r = []"
        by (simp only: Nil split_Nil)
      then have "split u = [?w]" and "u = ?w"
        using s u by (simp_all only: Nil append_Nil2)
      then show ?thesis
        by (metis join.simps(2))
    next
      case r: (Cons y r')
      have y: "isspace y"
        using r by (metis hd_dropWhile list.distinct(1) list.sel(1))
      have "spaced (?w @ ?r)"
        using sp by simp
      then have "spaced (y # r')"
        using r spaced_suffix by metis
      with y have y': "y = CHR '' ''" and r': "r' \<noteq> []" "\<not> isspace (hd r')" "spaced r'"
        by (cases r'; simp)+
      have ss: "single_spaced r'"
        using r' by (simp add: single_spaced_def)
      have "length r' < length u"
        using u r by (metis length_append length_Cons less_Suc_eq trans_less_add2 lessI)
      then have j: "join '' '' (split r') = r'"
        using 1(1) ss by blast
      have "split r' \<noteq> []"
        using r' by (cases r') (auto simp: split_Nil_iff)
      then obtain z zs where z: "split r' = z # zs"
        by (cases "split r'") auto
      have "split ?r = split r'"
        using r y by (simp add: split_Cons_space)
      then have "join '' '' (split u) = ?w @ '' '' @ join '' '' (split r')"
        using s z by simp
      also have "\<dots> = ?w @ y # r'"
        using j y' by simp
      also have "\<dots> = u"
        using u r by simp
      finally show ?thesis .
    qed
  qed
qed

lemma single_spaced_strip_collapse: "single_spaced (strip (collapse_runs s))"
  unfolding single_spaced_def
  using spaced_strip [OF collapsed_collapse_runs [of s]] hd_strip [of "collapse_runs s"] by simp

lemma strip_collapse_runs_split: "strip (collapse_runs s) = join '' '' (split s)"
proof -
  have "join '' '' (split (strip (collapse_runs s))) = strip (collapse_runs s)"
    using single_spaced_strip_collapse by (rule join_split_single_spaced)
  moreover have "split (strip (collapse_runs s)) = split s"
    by (simp add: split_strip split_multispace_sub [unfolded multispace_sub_collapse_runs])
  ultimately show ?thesis by simp
qed

lemma normalise_pj: "normalise s = pj (split s)"
  by (simp add: normalise_spec pj_def strip_collapse_runs_split)

lemma drop_space_append:
  assumes "u \<noteq> []" and "last u \<noteq> CHR '' ''" and "v \<noteq> []" and "hd v \<noteq> CHR '' ''"
  shows "drop_space_before_punct (u @ CHR '' '' # v)
     = drop_space_before_punct u
         @ (if ispunct (hd v) then drop_space_before_punct v
            else CHR '' '' # drop_space_before_punct v)"
  using assms(1,2)
proof (induction u rule: drop_space_before_punct.induct)
  case 1
  then show ?case by simp
next
  case (2 c)
  obtain h t where v: "v = h # t"
    using assms(3) by (cases v) auto
  from 2 have "c \<noteq> CHR '' ''" by simp
  then show ?case
    using v assms(4) by (simp add: drop_space_before_punct_Cons)
next
  case (3 c d cs)
  then have IH: "drop_space_before_punct ((d # cs) @ CHR '' '' # v)
     = drop_space_before_punct (d # cs)
         @ (if ispunct (hd v) then drop_space_before_punct v
            else CHR '' '' # drop_space_before_punct v)"
    by (cases "c = CHR '' '' \<and> ispunct d") simp_all
  show ?case
  proof (cases "c = CHR '' '' \<and> ispunct d")
    case True
    then show ?thesis
      using IH by simp
  next
    case False
    then show ?thesis
      using IH by auto
  qed
qed

lemma split_words:
  "w \<in> set (split s) \<Longrightarrow> w \<noteq> [] \<and> (\<forall>c \<in> set w. \<not> isspace c)"
proof (induction s arbitrary: w rule: length_induct)
  case (1 s)
  show ?case
  proof (cases "dropWhile isspace s")
    case Nil
    then have "split s = []"
      by (subst split.simps) (simp only: list.case)
    with 1(2) show ?thesis by simp
  next
    case (Cons x xs)
    let ?r = "dropWhile (\<lambda>x. \<not> isspace x) xs"
    have x: "\<not> isspace x"
      using Cons by (metis hd_dropWhile list.distinct(1) list.sel(1))
    have s: "split s = (x # takeWhile (\<lambda>x. \<not> isspace x) xs) # split ?r"
      using Cons by (subst split.simps) (simp only: list.case)
    have "length ?r < length s"
    proof -
      have "length ?r \<le> length xs" by (rule length_dropWhile_le)
      moreover have "length (x # xs) \<le> length s"
        using Cons by (metis length_dropWhile_le)
      ultimately show ?thesis by simp
    qed
    then have IH: "w \<in> set (split ?r) \<Longrightarrow> w \<noteq> [] \<and> (\<forall>c \<in> set w. \<not> isspace c)"
      using 1(1) by blast
    from 1(2) s consider "w = x # takeWhile (\<lambda>x. \<not> isspace x) xs" | "w \<in> set (split ?r)"
      by auto
    then show ?thesis
    proof cases
      case 1
      then show ?thesis
        using x by (auto dest: set_takeWhileD)
    next
      case 2
      then show ?thesis by (rule IH)
    qed
  qed
qed


lemma wordlist_split [simp]: "wordlist (split s)"
  using split_words by (auto simp: wordlist_def)

lemma wordlist_append [simp]: "wordlist (a @ b) \<longleftrightarrow> wordlist a \<and> wordlist b"
  by (auto simp: wordlist_def)

lemma wordlist_Nil [simp]: "wordlist []"
  by (simp add: wordlist_def)

lemma wordlist_concat_split [simp]: "wordlist (concat (map (\<lambda>x. split (f x)) xs))"
  by (induction xs) simp_all

lemma split_word:
  assumes "w \<noteq> []" and "\<forall>c \<in> set w. \<not> isspace c"
  shows "split w = [w]"
proof -
  obtain x xs where w: "w = x # xs"
    using assms(1) by (cases w) auto
  have t: "takeWhile (\<lambda>x. \<not> isspace x) xs = xs"
    using assms(2) w by (simp add: takeWhile_eq_all_conv)
  have d: "dropWhile (\<lambda>x. \<not> isspace x) xs = []"
    using assms(2) w by (simp add: dropWhile_eq_Nil_conv)
  have "split (x # xs) = (x # takeWhile (\<lambda>x. \<not> isspace x) xs) # split (dropWhile (\<lambda>x. \<not> isspace x) xs)"
    using assms(2) w by (intro split_Cons_nonspace) simp
  then show ?thesis
    unfolding t d w by simp
qed

lemma split_join_words: "wordlist ws \<Longrightarrow> split (join '' '' ws) = ws"
proof -
  assume "wordlist ws"
  then have "map split ws = map (\<lambda>w. [w]) ws"
    by (auto simp: wordlist_def split_word)
  moreover have "concat (map (\<lambda>w. [w]) ws) = ws"
    by (induction ws) simp_all
  ultimately show ?thesis
    by (simp only: split_join)
qed

lemma single_spaced_join: "wordlist ws \<Longrightarrow> single_spaced (join '' '' ws)"
proof -
  assume "wordlist ws"
  then have "strip (collapse_runs (join '' '' ws)) = join '' '' ws"
    by (simp add: strip_collapse_runs_split split_join_words)
  then show ?thesis
    using single_spaced_strip_collapse [of "join '' '' ws"] by simp
qed

lemma join_append:
  "xs \<noteq> [] \<Longrightarrow> ys \<noteq> [] \<Longrightarrow> join sep (xs @ ys) = join sep xs @ sep @ join sep ys"
proof (induction sep xs rule: join.induct)
  case (1 sep)
  then show ?case by simp
next
  case (2 sep x)
  then show ?case by (cases ys) simp_all
next
  case (3 sep x y zs)
  then show ?case by simp
qed

lemma join_Nil_iff: "wordlist ws \<Longrightarrow> join '' '' ws = [] \<longleftrightarrow> ws = []"
proof -
  assume w: "wordlist ws"
  show ?thesis
  proof
    assume "join '' '' ws = []"
    then have "split (join '' '' ws) = []" by simp
    with w show "ws = []" by (simp add: split_join_words)
  qed simp
qed

lemma single_spaced_ends:
  assumes "single_spaced u" and "u \<noteq> []"
  shows "hd u \<noteq> CHR '' ''" and "last u \<noteq> CHR '' ''"
  using assms by (auto simp: single_spaced_def spaced_collapsed)

lemma pj_Nil_iff: "wordlist ws \<Longrightarrow> pj ws = [] \<longleftrightarrow> ws = []"
  by (simp add: pj_def join_Nil_iff)

lemma hd_pj: "wordlist ws \<Longrightarrow> ws \<noteq> [] \<Longrightarrow> hd (pj ws) = hd (join '' '' ws)"
proof -
  assume w: "wordlist ws" and n: "ws \<noteq> []"
  have ne: "join '' '' ws \<noteq> []"
    using w n by (simp add: join_Nil_iff)
  have "\<not> isspace (hd (join '' '' ws))"
    using single_spaced_join [OF w] ne by (simp add: single_spaced_def)
  then show ?thesis
    using ne by (simp add: pj_def hd_drop_space_before_punct)
qed

lemma pj_append:
  assumes "wordlist a" and "wordlist b"
  shows "pj (a @ b) = glue (pj a) (pj b)"
proof (cases "a = [] \<or> b = []")
  case True
  then show ?thesis
    using assms by (auto simp: glue_def pj_Nil_iff) 
next
  case False
  let ?u = "join '' '' a" and ?v = "join '' '' b"
  have u: "?u \<noteq> []" and v: "?v \<noteq> []"
    using False assms by (simp_all add: join_Nil_iff)
  have ends: "last ?u \<noteq> CHR '' ''" "hd ?v \<noteq> CHR '' ''"
    using single_spaced_ends single_spaced_join assms u v by blast+
  have "pj (a @ b) = drop_space_before_punct (?u @ CHR '' '' # ?v)"
    using False by (simp add: pj_def join_append)
  also have "\<dots> = pj a @ (if ispunct (hd ?v) then pj b else CHR '' '' # pj b)"
    unfolding pj_def using u ends(1) v ends(2) by (rule drop_space_append)
  also have "hd ?v = hd (pj b)"
    using False assms by (simp add: hd_pj)
  finally show ?thesis
    using False assms by (simp add: glue_def pj_Nil_iff)
qed

lemma tidy_pj: "wordlist ws \<Longrightarrow> tidy (pj ws)"
proof -
  assume w: "wordlist ws"
  have ss: "single_spaced (join '' '' ws)"
    using w by (rule single_spaced_join)
  then have sp: "spaced (join '' '' ws)"
    by (simp add: single_spaced_def)
  have "pj ws = [] \<or> \<not> isspace (hd (pj ws))"
  proof (cases "ws = []")
    case True
    then show ?thesis by (simp add: pj_def)
  next
    case False
    then have "join '' '' ws \<noteq> []"
      using w by (simp add: join_Nil_iff)
    then show ?thesis
      using ss hd_pj [OF w False] by (simp add: single_spaced_def)
  qed
  then show ?thesis
    unfolding tidy_def pj_def [symmetric]
    using spaced_drop_space_before_punct [OF sp] nospp_drop_space_before_punct [OF sp]
    by (simp add: pj_def)
qed

lemma pj_split_pj: "wordlist ws \<Longrightarrow> pj (split (pj ws)) = pj ws"
proof -
  assume w: "wordlist ws"
  have t: "tidy (pj ws)"
    using w by (rule tidy_pj)
  then have "single_spaced (pj ws)"
    by (simp add: tidy_def single_spaced_def)
  then have "join '' '' (split (pj ws)) = pj ws"
    by (rule join_split_single_spaced)
  then have "pj (split (pj ws)) = drop_space_before_punct (pj ws)"
    by (simp add: pj_def)
  also have "\<dots> = pj ws"
    using t by (simp add: tidy_def drop_space_before_punct_nospp)
  finally show ?thesis .
qed

lemma pj_concat_normalise:
  "pj (concat (map (\<lambda>x. split (normalise x)) xs)) = pj (concat (map split xs))"
proof (induction xs)
  case Nil
  show ?case by simp
next
  case (Cons x xs)
  have "pj (split (normalise x)) = pj (split x)"
    by (simp add: normalise_pj pj_split_pj)
  moreover have "wordlist (concat (map split xs))"
    using wordlist_concat_split [of "\<lambda>x. x" xs] by simp
  ultimately show ?case
    using Cons by (simp add: pj_append)
qed

lemma normalise_join:
  "normalise (join '' '' (filter (\<lambda>s. s \<noteq> []) (map normalise xs))) = normalise (join '' '' xs)"
proof -
  have "concat (map split (filter (\<lambda>s. s \<noteq> []) ys)) = concat (map split ys)" for ys
    by (induction ys) auto
  then have "split (join '' '' (filter (\<lambda>s. s \<noteq> []) (map normalise xs)))
      = concat (map (\<lambda>x. split (normalise x)) xs)"
    by (simp add: split_join comp_def)
  then have "normalise (join '' '' (filter (\<lambda>s. s \<noteq> []) (map normalise xs)))
      = pj (concat (map (\<lambda>x. split (normalise x)) xs))"
    by (simp only: normalise_pj)
  also have "\<dots> = pj (concat (map split xs))"
    by (rule pj_concat_normalise)
  also have "\<dots> = normalise (join '' '' xs)"
    by (simp only: normalise_pj split_join)
  finally show ?thesis .
qed

lemma map_filter_clean_text:
  "List.map_filter (\<lambda>c. clean_text (Some (f c))) xs
     = filter (\<lambda>s. s \<noteq> []) (map (\<lambda>c. normalise (f c)) xs)"
  by (induction xs) (auto simp: List.map_filter_simps clean_text_normalise)

lemma clean_text_join_parts:
  "clean_text (Some (join '' '' (List.map_filter (\<lambda>c. clean_text (Some (f c))) xs)))
     = clean_text (Some (join '' '' (map f xs)))"
proof -
  have "normalise (join '' '' (filter (\<lambda>s. s \<noteq> []) (map normalise (map f xs))))
      = normalise (join '' '' (map f xs))"
    by (rule normalise_join)
  then have "normalise (join '' '' (List.map_filter (\<lambda>c. clean_text (Some (f c))) xs))
      = normalise (join '' '' (map f xs))"
    by (simp only: map_filter_clean_text map_map comp_def)
  then show ?thesis
    by (simp only: clean_text_normalise)
qed

lemma concat_split_strip:
  "concat (map split (filter (\<lambda>s. s \<noteq> []) (map strip ss))) = concat (map split ss)"
proof (induction ss)
  case Nil
  show ?case by simp
next
  case (Cons a ss)
  have "split (strip a) = split a"
    by (rule split_strip)
  moreover have "strip a = [] \<Longrightarrow> split a = []"
    using split_strip [of a] by simp
  ultimately show ?case
    using Cons by auto
qed

lemma split_child_text: "split (child_text t) = concat (map split (strings (node t)))"
proof (cases "node t")
  case (Text s)
  then show ?thesis by (simp add: child_text_def split_strip)
next
  case (Element n a cs)
  then have "child_text t = get_text t"
    by (simp add: child_text_def)
  then show ?thesis
    by (simp only: get_text_def split_join concat_split_strip)
qed

lemma split_text_before:
  "split (text_before ts) = concat (map (\<lambda>t. split (child_text t)) ts)"
proof -
  have "split (text_before ts) = concat (map split (concat (map (\<lambda>t. strings (node t)) ts)))"
    by (simp only: text_before_def split_join concat_split_strip)
  also have "\<dots> = concat (map (\<lambda>t. split (child_text t)) ts)"
    by (induction ts) (simp_all add: split_child_text)
  finally show ?thesis .
qed

lemma clean_text_text_before:
  "clean_text (Some (join '' '' (map child_text ts))) = clean_text (Some (text_before ts))"
proof -
  have "split (join '' '' (map child_text ts)) = split (text_before ts)"
    by (simp add: split_join split_text_before comp_def)
  then have "normalise (join '' '' (map child_text ts)) = normalise (text_before ts)"
    by (simp only: normalise_pj)
  then show ?thesis
    by (simp only: clean_text_normalise)
qed

lemma summary_text_before:
  assumes "children td = before @ u # after" and "is_named ''ul'' u"
    and "\<forall>c \<in> set before. \<not> is_named ''ul'' c \<and> find_tag c ''ul'' = None"
  shows "summary (extract_description_parts (Some td)) = clean_text (Some (text_before before))"
  using extract_with_list(1) [OF assms]
  by (simp only: clean_text_join_parts clean_text_text_before)

text \<open>
  Claim C4, as amended. When the first list of the cell, in document order, is a child of
  the cell, \<open>summary\<close> is the normalised text of the children before it, their strings
  stripped and joined by single spaces, and \<open>effects\<close> holds the normalised text of every
  item of that list that has text, in document order. A cell without a list has no summary
  and no effects.
\<close>

theorem summary_and_effects:
  "(children td = before @ u # after \<and> is_named ''ul'' u
      \<and> (\<forall>c \<in> set before. \<not> is_named ''ul'' c \<and> find_tag c ''ul'' = None)
     \<longrightarrow> summary (extract_description_parts (Some td)) = clean_text (Some (text_before before))
         \<and> summary (extract_description_parts (Some td))
           = clean_text (Some (join '' '' (map child_text before)))
         \<and> effects (extract_description_parts (Some td))
           = List.map_filter (\<lambda>li. clean_text (Some (get_text li))) (find_all u ''li''))
   \<and> (find_tag td ''ul'' = None
     \<longrightarrow> summary (extract_description_parts (Some td)) = None
         \<and> effects (extract_description_parts (Some td)) = [])"
proof (intro conjI impI)
  assume a: "children td = before @ u # after \<and> is_named ''ul'' u
      \<and> (\<forall>c \<in> set before. \<not> is_named ''ul'' c \<and> find_tag c ''ul'' = None)"
  then show "summary (extract_description_parts (Some td)) = clean_text (Some (text_before before))"
    using summary_text_before [of td before u after] by blast
  then show "summary (extract_description_parts (Some td))
      = clean_text (Some (join '' '' (map child_text before)))"
    by (simp only: clean_text_text_before)
  show "effects (extract_description_parts (Some td))
      = List.map_filter (\<lambda>li. clean_text (Some (get_text li))) (find_all u ''li'')"
    using a extract_with_list(2) [of td before u after] by blast
next
  assume "find_tag td ''ul'' = None"
  then show "summary (extract_description_parts (Some td)) = None"
    and "effects (extract_description_parts (Some td)) = []"
    by (rule extract_without_list)+
qed

theorem summary_and_effects_witness:
  "children example_description
       = [children example_description ! 0] @ (children example_description ! 1)
           # [children example_description ! 2]
   \<and> is_named ''ul'' (children example_description ! 1)
   \<and> text_before [children example_description ! 0] = ''Boosts your luck.''
   \<and> summary (extract_description_parts (Some example_description)) = Some ''Boosts your luck.''
   \<and> effects (extract_description_parts (Some example_description)) = [''item 1'', ''item 2.'']
   \<and> find_tag example_image_cell ''ul'' = None
   \<and> summary (extract_description_parts (Some example_image_cell)) = None
   \<and> effects (extract_description_parts (Some example_image_cell)) = []"
proof -
  let ?b = "[children example_description ! 0]"
  let ?u = "children example_description ! 1"
  let ?a = "[children example_description ! 2]"
  have h1: "children example_description = ?b @ ?u # ?a"
    by code_simp
  have h2: "is_named ''ul'' ?u"
    by code_simp
  have h3: "\<forall>c \<in> set ?b. \<not> is_named ''ul'' c \<and> find_tag c ''ul'' = None"
    by code_simp
  have t: "text_before ?b = ''Boosts your luck.''"
    by code_simp
  have s: "clean_text (Some ''Boosts your luck.'') = Some ''Boosts your luck.''"
    by code_simp
  have e: "List.map_filter (\<lambda>li. clean_text (Some (get_text li))) (find_all ?u ''li'')
      = [''item 1'', ''item 2.'']"
    by code_simp
  have n: "find_tag example_image_cell ''ul'' = None"
    by code_simp
  from summary_and_effects [of example_description ?b ?u ?a]
    summary_and_effects [of example_image_cell]
  show ?thesis
    using h1 h2 h3 t s e n by simp
qed

theorem summary_and_effects_counterexample:
  "find_tag example_nested_list ''ul'' \<noteq> None
   \<and> summary (extract_description_parts (Some example_nested_list)) = Some ''Intro x Outro''
   \<and> effects (extract_description_parts (Some example_nested_list)) = [''x'']
   \<and> map get_text (find_all example_nested_list ''li'') = [[], ''x'', ''y'']
   \<and> length (effects (extract_description_parts (Some example_nested_list)))
       \<noteq> length (find_all example_nested_list ''li'')
   \<and> summary (extract_description_parts (Some example_adjacent)) = Some ''Heal ing faster''
   \<and> clean_text (Some (concat (concat (map (\<lambda>t. strings (node t))
         (take 3 (children example_adjacent)))))) = Some ''Healing faster''"
  by code_simp

subsection \<open>Category traversal\<close>

lemma visit_member_fields:
  "seen_cats (visit_member m st) = seen_cats st"
  "enumerated (visit_member m st) = enumerated st"
  "queue (visit_member m st) = queue st @ subcats_of [m]"
  "pages (visit_member m st) = pages st \<union> pages_of [m]"
  by (auto simp: visit_member_def subcats_of_def pages_of_def List.map_filter_simps
      split: option.splits)

lemma subcats_of_Cons: "subcats_of (m # ms) = subcats_of [m] @ subcats_of ms"
  by (simp add: subcats_of_def List.map_filter_simps split: option.splits)

lemma pages_of_Cons: "pages_of (m # ms) = pages_of [m] \<union> pages_of ms"
  by (auto simp: pages_of_def List.map_filter_simps split: option.splits)

lemma fold_visit_member_fields:
  "seen_cats (fold visit_member ms st) = seen_cats st"
  "enumerated (fold visit_member ms st) = enumerated st"
  "queue (fold visit_member ms st) = queue st @ subcats_of ms"
  "pages (fold visit_member ms st) = pages st \<union> pages_of ms"
proof (induction ms arbitrary: st)
  case Nil
  {
    case 1 show ?case by simp
  next
    case 2 show ?case by simp
  next
    case 3 show ?case by (simp add: subcats_of_def List.map_filter_simps)
  next
    case 4 show ?case by (simp add: pages_of_def List.map_filter_simps)
  }
next
  case (Cons m ms)
  {
    case 1 show ?case by (simp add: Cons visit_member_fields)
  next
    case 2 show ?case by (simp add: Cons visit_member_fields)
  next
    case 3 show ?case by (simp add: Cons visit_member_fields subcats_of_Cons [of m ms])
  next
    case 4 show ?case by (simp add: Cons visit_member_fields pages_of_Cons [of m ms] Un_assoc)
  }
qed

lemma finite_pages_of: "finite (pages_of ms)"
  by (simp add: pages_of_def)

lemma traversal_inv_start: "traversal_inv w ua discover_start"
  by (auto simp: traversal_inv_def discover_start_def intro: reachable.root)

lemma traversal_inv_skip:
  assumes "traversal_inv w ua st" and "queue st = cat # rest" and "cat \<in> seen_cats st"
  shows "traversal_inv w ua (st\<lparr>queue := rest\<rparr>)"
  using assms unfolding traversal_inv_def by auto

lemma traversal_inv_visit:
  assumes inv: "traversal_inv w ua st" and q: "queue st = cat # rest"
    and new: "cat \<notin> seen_cats st"
    and ms: "iter_category_members w cat ua ''page|subcat'' [] = Some (Inr ms)"
  shows "traversal_inv w ua
     (fold visit_member ms
        (st\<lparr>queue := rest, seen_cats := insert cat (seen_cats st),
            enumerated := enumerated st @ [cat]\<rparr>))"
proof -
  have m: "members_of w ua cat = ms"
    using ms by (simp add: members_of_def)
  have r: "reachable w ua cat"
    using inv q by (auto simp: traversal_inv_def)
  have sub: "set (subcats_of ms) \<subseteq> {c. reachable w ua c}"
    using r m by (auto simp: subcat_edge_def intro: reachable.step)
  have pg: "pages_of ms \<subseteq> reachable_pages w ua"
    using r m by (auto simp: reachable_pages_def page_edge_def)
  show ?thesis
    unfolding traversal_inv_def fold_visit_member_fields
    using inv q new sub pg m
    by (auto simp: traversal_inv_def subcat_edge_def page_edge_def finite_pages_of)
qed

lemma traversal_inv_error:
  assumes inv: "traversal_inv w ua st" and q: "queue st = cat # rest"
    and new: "cat \<notin> seen_cats st"
  shows "distinct (enumerated st @ [cat])"
    and "set (enumerated st @ [cat]) = insert cat (seen_cats st)"
  using assms by (auto simp: traversal_inv_def)


lemma discover_loop_partial_aux:
  assumes "discover_loop w0 ua0 st0 = Some y0"
  shows "traversal_inv w0 ua0 st0 \<longrightarrow> traversal_post w0 ua0 (fst y0) (snd y0)"
proof (rule discover_loop.raw_induct
    [OF _ assms, where P = "\<lambda>w ua st y. traversal_inv w ua st \<longrightarrow> traversal_post w ua (fst y) (snd y)"])
  fix loop :: "wiki \<Rightarrow> string \<Rightarrow> traversal \<Rightarrow> (error option \<times> traversal) option"
    and w ua st y
  assume IH: "\<And>w ua st y. loop w ua st = Some y
      \<Longrightarrow> traversal_inv w ua st \<longrightarrow> traversal_post w ua (fst y) (snd y)"
  assume body: "(case queue st of
        [] \<Rightarrow> Some (None, st)
      | cat # rest \<Rightarrow>
          if cat \<in> seen_cats st then loop w ua (st\<lparr>queue := rest\<rparr>)
          else
            (let st1 = st\<lparr>queue := rest, seen_cats := insert cat (seen_cats st),
                           enumerated := enumerated st @ [cat]\<rparr>
             in case iter_category_members w cat ua ''page|subcat'' [] of
                  None \<Rightarrow> None
                | Some (Inl e) \<Rightarrow> Some (Some e, st1)
                | Some (Inr ms) \<Rightarrow> loop w ua (fold visit_member ms st1))) = Some y"
  show "traversal_inv w ua st \<longrightarrow> traversal_post w ua (fst y) (snd y)"
  proof
    assume inv: "traversal_inv w ua st"
    show "traversal_post w ua (fst y) (snd y)"
    proof (cases "queue st")
      case Nil
      with body have "y = (None, st)" by simp
      with Nil inv show ?thesis
        by (simp add: traversal_post_def traversal_inv_def)
    next
      case (Cons cat rest)
      show ?thesis
      proof (cases "cat \<in> seen_cats st")
        case True
        with Cons body have "loop w ua (st\<lparr>queue := rest\<rparr>) = Some y"
          by simp
        moreover have "traversal_inv w ua (st\<lparr>queue := rest\<rparr>)"
          using inv Cons True by (rule traversal_inv_skip)
        ultimately show ?thesis
          using IH by blast
      next
        case False
        let ?st1 = "st\<lparr>queue := rest, seen_cats := insert cat (seen_cats st),
                        enumerated := enumerated st @ [cat]\<rparr>"
        from body Cons False obtain res where
          res: "iter_category_members w cat ua ''page|subcat'' [] = Some res"
          by (cases "iter_category_members w cat ua ''page|subcat'' []") (auto simp: Let_def)
        show ?thesis
        proof (cases res)
          case (Inl e)
          with body Cons False res have "y = (Some e, ?st1)"
            by (simp add: Let_def)
          then show ?thesis
            using traversal_inv_error [OF inv Cons False]
            by (simp add: traversal_post_def)
        next
          case (Inr ms)
          with body Cons False res
          have "loop w ua (fold visit_member ms ?st1) = Some y"
            by (simp add: Let_def)
          moreover have "traversal_inv w ua (fold visit_member ms ?st1)"
            using inv Cons False res Inr by (intro traversal_inv_visit) simp_all
          ultimately show ?thesis
            using IH by blast
        qed
      qed
    qed
  qed
qed

lemma discover_loop_partial:
  assumes "discover_loop w ua st = Some (r, st')" and "traversal_inv w ua st"
  shows "traversal_post w ua r st'"
  using discover_loop_partial_aux [OF assms(1)] assms(2) by simp

lemma closed_reachable:
  assumes "reachable w ua c"
    and "''Category:Items'' \<in> S"
    and "\<forall>c \<in> S. \<forall>t. subcat_edge w ua c t \<longrightarrow> t \<in> S"
  shows "c \<in> S"
  using assms by (induction rule: reachable.induct) auto

lemma traversal_post_done:
  assumes "traversal_post w ua None st"
  shows "seen_cats st = {c. reachable w ua c}"
    and "pages st = reachable_pages w ua"
    and "finite (pages st)"
proof -
  from assms have q: "queue st = []" and inv: "traversal_inv w ua st"
    by (simp_all add: traversal_post_def)
  have "c \<in> seen_cats st" if "reachable w ua c" for c
    using that inv q by (intro closed_reachable [of w ua c]) (auto simp: traversal_inv_def)
  then show s: "seen_cats st = {c. reachable w ua c}"
    using inv by (auto simp: traversal_inv_def)
  have "reachable_pages w ua \<subseteq> pages st"
    using inv s by (auto simp: traversal_inv_def reachable_pages_def)
  then show "pages st = reachable_pages w ua"
    using inv by (auto simp: traversal_inv_def)
  show "finite (pages st)"
    using inv by (simp add: traversal_inv_def)
qed

lemma wf_traversal_order: "wf (less_than <*lex*> less_than)"
  by (intro wf_lex_prod wf_less_than)

lemma discover_loop_total:
  assumes fin: "finite {c. reachable w ua c}"
    and pag: "\<forall>c. reachable w ua c \<longrightarrow> iter_category_members w c ua ''page|subcat'' [] \<noteq> None"
    and inv: "traversal_inv w ua st"
  shows "\<exists>y. discover_loop w ua st = Some y"
  using inv
proof (induction "(card ({c. reachable w ua c} - seen_cats st), length (queue st))"
    arbitrary: st rule: wf_induct_rule [OF wf_traversal_order])
  case (1 st)
  note inv = 1(2)
  show ?case
  proof (cases "queue st")
    case Nil
    then show ?thesis
      by (subst discover_loop.simps) simp
  next
    case (Cons cat rest)
    show ?thesis
    proof (cases "cat \<in> seen_cats st")
      case True
      have "traversal_inv w ua (st\<lparr>queue := rest\<rparr>)"
        using inv Cons True by (rule traversal_inv_skip)
      then have "\<exists>y. discover_loop w ua (st\<lparr>queue := rest\<rparr>) = Some y"
        using Cons by (intro 1(1)) simp_all
      then show ?thesis
        using Cons True by (subst discover_loop.simps) simp
    next
      case False
      let ?st1 = "st\<lparr>queue := rest, seen_cats := insert cat (seen_cats st),
                      enumerated := enumerated st @ [cat]\<rparr>"
      have r: "reachable w ua cat"
        using inv Cons by (auto simp: traversal_inv_def)
      then obtain res where
        res: "iter_category_members w cat ua ''page|subcat'' [] = Some res"
        using pag by blast
      show ?thesis
      proof (cases res)
        case (Inl e)
        then show ?thesis
          using Cons False res by (subst discover_loop.simps) (simp add: Let_def)
      next
        case (Inr ms)
        have i: "traversal_inv w ua (fold visit_member ms ?st1)"
          using inv Cons False res Inr by (intro traversal_inv_visit) simp_all
        have "{c. reachable w ua c} - insert cat (seen_cats st)
            \<subset> {c. reachable w ua c} - seen_cats st"
          using r False by auto
        then have "card ({c. reachable w ua c} - insert cat (seen_cats st))
            < card ({c. reachable w ua c} - seen_cats st)"
          using fin by (intro psubset_card_mono) auto
        then have "\<exists>y. discover_loop w ua (fold visit_member ms ?st1) = Some y"
          using i by (intro 1(1)) (simp_all add: fold_visit_member_fields)
        then show ?thesis
          using Cons False res Inr by (subst discover_loop.simps) (simp add: Let_def)
      qed
    qed
  qed
qed

subsection \<open>The example wikis\<close>

lemma example_iter_page2:
  "iter_category_members example_wiki ''Category:Items'' ua ''page|subcat''
     [(''cmcontinue'', ''page|2''), (''continue'', ''-||'')]
   = Some (Inr [Member (Some 0) (Some ''Map''), Member (Some 2) (Some ''User:Claudette''),
                Member (Some 0) (Some ''Gone'')])"
  by (subst iter_category_members.simps)
    (simp add: fetch_json_def example_wiki_def example_members_def example_answer_def dict_update_def)

lemma example_iter_items:
  "iter_category_members example_wiki ''Category:Items'' ua ''page|subcat'' []
   = Some (Inr [Member (Some 14) (Some ''Category:Rare Items''), Member (Some 0) (Some ''Toolbox''),
            Member (Some 0) (Some ''Map''), Member (Some 2) (Some ''User:Claudette''),
            Member (Some 0) (Some ''Gone'')])"
  by (subst iter_category_members.simps)
    (simp add: fetch_json_def example_wiki_def example_members_def example_answer_def
      dict_update_def example_iter_page2 Let_def)

lemma example_iter_rare:
  "iter_category_members example_wiki ''Category:Rare Items'' ua ''page|subcat'' []
   = Some (Inr [Member (Some 14) (Some ''Category:Items''), Member (Some 0) (Some ''Toolbox''),
            Member (Some 0) (Some ''Flashlight''), Member (Some 0) None])"
  by (subst iter_category_members.simps)
    (simp add: fetch_json_def example_wiki_def example_members_def example_answer_def
      dict_update_def Let_def)

lemma example_iter_other:
  assumes "c \<noteq> ''Category:Items''" and "c \<noteq> ''Category:Rare Items''"
  shows "iter_category_members example_wiki c ua ''page|subcat'' [] = Some (Inr [])"
  using assms
  by (subst iter_category_members.simps)
    (simp add: fetch_json_def example_wiki_def example_members_def example_answer_def
      dict_update_def Let_def)

lemma example_members_of:
  "members_of example_wiki ua c =
     (if c = ''Category:Items''
      then [Member (Some 14) (Some ''Category:Rare Items''), Member (Some 0) (Some ''Toolbox''),
            Member (Some 0) (Some ''Map''), Member (Some 2) (Some ''User:Claudette''),
            Member (Some 0) (Some ''Gone'')]
      else if c = ''Category:Rare Items''
      then [Member (Some 14) (Some ''Category:Items''), Member (Some 0) (Some ''Toolbox''),
            Member (Some 0) (Some ''Flashlight''), Member (Some 0) None]
      else [])"
  by (simp add: members_of_def example_iter_items example_iter_rare example_iter_other)

lemma example_iter_total:
  "iter_category_members example_wiki c ua ''page|subcat'' [] \<noteq> None"
  using example_iter_items [of ua] example_iter_rare [of ua] example_iter_other [of c ua]
  by (cases "c = ''Category:Items''"; cases "c = ''Category:Rare Items''") simp_all

lemma example2_iter_items:
  "iter_category_members example_wiki2 ''Category:Items'' ua ''page|subcat'' []
   = Some (Inr [Member (Some 0) (Some ''Gone''), Member (Some 0) (Some ''Map''),
              Member (Some 0) (Some ''Toolbox''), Member (Some 14) (Some ''Category:Rare Items''),
              Member (Some 0) (Some ''Map'')])"
  by (subst iter_category_members.simps)
    (simp add: fetch_json_def example_wiki2_def example_answer_def dict_update_def Let_def)

lemma example2_iter_rare:
  "iter_category_members example_wiki2 ''Category:Rare Items'' ua ''page|subcat'' []
   = Some (Inr [Member (Some 0) (Some ''Flashlight''), Member (Some 0) (Some ''Toolbox''),
             Member (Some 14) (Some ''Category:Items'')])"
  by (subst iter_category_members.simps)
    (simp add: fetch_json_def example_wiki2_def example_answer_def dict_update_def Let_def)

lemma example2_iter_other:
  assumes "c \<noteq> ''Category:Items''" and "c \<noteq> ''Category:Rare Items''"
  shows "iter_category_members example_wiki2 c ua ''page|subcat'' [] = Some (Inr [])"
  using assms
  by (subst iter_category_members.simps)
    (simp add: fetch_json_def example_wiki2_def example_answer_def dict_update_def Let_def)

lemma example2_members_of:
  "members_of example_wiki2 ua c =
     (if c = ''Category:Items''
      then [Member (Some 0) (Some ''Gone''), Member (Some 0) (Some ''Map''),
              Member (Some 0) (Some ''Toolbox''), Member (Some 14) (Some ''Category:Rare Items''),
              Member (Some 0) (Some ''Map'')]
      else if c = ''Category:Rare Items''
      then [Member (Some 0) (Some ''Flashlight''), Member (Some 0) (Some ''Toolbox''),
             Member (Some 14) (Some ''Category:Items'')]
      else [])"
  by (simp add: members_of_def example2_iter_items example2_iter_rare example2_iter_other)

lemma example_subcat_edge:
  "subcat_edge example_wiki ua c t \<longleftrightarrow>
     (c = ''Category:Items'' \<and> t = ''Category:Rare Items'')
     \<or> (c = ''Category:Rare Items'' \<and> t = ''Category:Items'')"
  by (auto simp: subcat_edge_def example_members_of subcats_of_def List.map_filter_simps)

lemma example2_subcat_edge:
  "subcat_edge example_wiki2 ua c t \<longleftrightarrow>
     (c = ''Category:Items'' \<and> t = ''Category:Rare Items'')
     \<or> (c = ''Category:Rare Items'' \<and> t = ''Category:Items'')"
  by (auto simp: subcat_edge_def example2_members_of subcats_of_def List.map_filter_simps)

lemma reachable_two:
  assumes "\<And>c t. subcat_edge w ua c t \<longleftrightarrow>
     (c = ''Category:Items'' \<and> t = ''Category:Rare Items'')
     \<or> (c = ''Category:Rare Items'' \<and> t = ''Category:Items'')"
  shows "reachable w ua c \<longleftrightarrow> c = ''Category:Items'' \<or> c = ''Category:Rare Items''"
proof
  assume "reachable w ua c"
  then show "c = ''Category:Items'' \<or> c = ''Category:Rare Items''"
    by (induction rule: reachable.induct) (auto simp: assms)
next
  assume "c = ''Category:Items'' \<or> c = ''Category:Rare Items''"
  moreover have "reachable w ua ''Category:Rare Items''"
    by (rule reachable.step [OF reachable.root]) (simp add: assms)
  ultimately show "reachable w ua c"
    by (auto intro: reachable.root)
qed

lemma example_reachable:
  "reachable example_wiki ua c \<longleftrightarrow> c = ''Category:Items'' \<or> c = ''Category:Rare Items''"
  by (rule reachable_two) (rule example_subcat_edge)

lemma example2_reachable:
  "reachable example_wiki2 ua c \<longleftrightarrow> c = ''Category:Items'' \<or> c = ''Category:Rare Items''"
  by (rule reachable_two) (rule example2_subcat_edge)

lemma page_edges_two:
  assumes "\<And>c. reachable w ua c \<longleftrightarrow> c = a \<or> c = b"
  shows "page_edges w ua
     = Pair a ` pages_of (members_of w ua a) \<union> Pair b ` pages_of (members_of w ua b)"
  by (auto simp: page_edges_def page_edge_def assms)

lemma example_pages_of_items:
  "pages_of (members_of example_wiki ua ''Category:Items'') = {''Toolbox'', ''Map'', ''Gone''}"
  by (simp add: example_members_of pages_of_def List.map_filter_simps)

lemma example_pages_of_rare:
  "pages_of (members_of example_wiki ua ''Category:Rare Items'') = {''Toolbox'', ''Flashlight''}"
  by (simp add: example_members_of pages_of_def List.map_filter_simps)

lemma example2_pages_of_items:
  "pages_of (members_of example_wiki2 ua ''Category:Items'') = {''Toolbox'', ''Map'', ''Gone''}"
  by (simp add: example2_members_of pages_of_def List.map_filter_simps insert_commute)

lemma example2_pages_of_rare:
  "pages_of (members_of example_wiki2 ua ''Category:Rare Items'') = {''Toolbox'', ''Flashlight''}"
  by (simp add: example2_members_of pages_of_def List.map_filter_simps insert_commute)

lemma example_page_edges_eq: "page_edges example_wiki ua = page_edges example_wiki2 ua'"
  by (simp only: page_edges_two [OF example_reachable] page_edges_two [OF example2_reachable]
      example_pages_of_items example_pages_of_rare example2_pages_of_items example2_pages_of_rare)

lemma example_finite: "finite {c. reachable example_wiki ua c}"
proof -
  have "{c. reachable example_wiki ua c} = {''Category:Items'', ''Category:Rare Items''}"
    by (auto simp: example_reachable)
  then show ?thesis by simp
qed

text \<open>
  Claim C1. For every category graph with finitely many reachable categories, cycles
  included, in which every listing of a reachable category comes to an end, the traversal of
  \<open>discover_item_pages\<close> terminates, with the titles or with the error of a failed request,
  and it requests the members of no category twice: the categories enumerated are exactly
  those seen, each once.
\<close>

theorem traversal_terminates_visiting_once:
  assumes "finite {c. reachable w ua c}"
    and "\<forall>c. reachable w ua c \<longrightarrow> iter_category_members w c ua ''page|subcat'' [] \<noteq> None"
  shows "(\<exists>r st. discover_loop w ua discover_start = Some (r, st)
            \<and> distinct (enumerated st) \<and> set (enumerated st) = seen_cats st)
     \<and> discover_item_pages w ua \<noteq> None"
proof -
  obtain r st where l: "discover_loop w ua discover_start = Some (r, st)"
    using discover_loop_total [OF assms traversal_inv_start] by fastforce
  have "traversal_post w ua r st"
    using l traversal_inv_start by (rule discover_loop_partial)
  then have "distinct (enumerated st) \<and> set (enumerated st) = seen_cats st"
    by (simp add: traversal_post_def)
  moreover have "discover_item_pages w ua \<noteq> None"
    using l by (cases r) (simp_all add: discover_item_pages_def)
  ultimately show ?thesis
    using l by blast
qed

theorem traversal_terminates_visiting_once_witness:
  "discover_loop example_wiki ''ua'' discover_start
     = Some (None, \<lparr>seen_cats = {''Category:Items'', ''Category:Rare Items''}, queue = [],
                    pages = {''Toolbox'', ''Map'', ''Gone'', ''Flashlight''},
                    enumerated = [''Category:Items'', ''Category:Rare Items'']\<rparr>)
   \<and> (\<exists>r st. discover_loop example_wiki ''ua'' discover_start = Some (r, st)
            \<and> distinct (enumerated st) \<and> set (enumerated st) = seen_cats st)
   \<and> discover_item_pages example_wiki ''ua'' \<noteq> None"
proof -
  have e: "discover_loop example_wiki ''ua'' discover_start
     = Some (None, \<lparr>seen_cats = {''Category:Items'', ''Category:Rare Items''}, queue = [],
                    pages = {''Toolbox'', ''Map'', ''Gone'', ''Flashlight''},
                    enumerated = [''Category:Items'', ''Category:Rare Items'']\<rparr>)"
    by code_simp
  have p: "\<forall>c. reachable example_wiki ''ua'' c
      \<longrightarrow> iter_category_members example_wiki c ''ua'' ''page|subcat'' [] \<noteq> None"
    by (simp add: example_iter_total)
  from traversal_terminates_visiting_once [OF example_finite p] show ?thesis
    using e by simp
qed

lemma reachable_pages_edges: "reachable_pages w ua = snd ` page_edges w ua"
  by (auto simp: reachable_pages_def page_edges_def image_iff)

lemma discover_item_pages_result:
  assumes "discover_item_pages w ua = Some (Inr ts)"
  shows "ts = sorted_list_of_set (reachable_pages w ua)" and "finite (reachable_pages w ua)"
proof -
  from assms obtain st where l: "discover_loop w ua discover_start = Some (None, st)"
    and ts: "ts = sorted_list_of_set (pages st)"
    by (auto simp: discover_item_pages_def split: option.splits prod.splits)
  have "traversal_post w ua None st"
    using l traversal_inv_start by (rule discover_loop_partial)
  note d = traversal_post_done [OF this]
  show "ts = sorted_list_of_set (reachable_pages w ua)"
    using d ts by simp
  show "finite (reachable_pages w ua)"
    using d by simp
qed

text \<open>
  Claim C2. The list \<open>discover_item_pages\<close> returns is sorted and free of duplicates, and
  its titles are exactly the pages listed by the categories reachable from the root. So it
  is determined by the set of these edges: two wikis with the same edges, whatever the order
  of their listings and however often a title is listed, give the same list.
\<close>

theorem titles_sorted_unique_from_edges:
  "(discover_item_pages w ua = Some (Inr ts)
      \<longrightarrow> sorted ts \<and> distinct ts \<and> set ts = snd ` page_edges w ua)
   \<and> (discover_item_pages w ua = Some (Inr ts) \<and> discover_item_pages w' ua' = Some (Inr ts')
        \<and> page_edges w ua = page_edges w' ua'
      \<longrightarrow> ts = ts')"
proof (rule conjI)
  show "discover_item_pages w ua = Some (Inr ts)
      \<longrightarrow> sorted ts \<and> distinct ts \<and> set ts = snd ` page_edges w ua"
  proof
    assume a: "discover_item_pages w ua = Some (Inr ts)"
    from discover_item_pages_result [OF a]
    show "sorted ts \<and> distinct ts \<and> set ts = snd ` page_edges w ua"
      by (simp add: reachable_pages_edges)
  qed
next
  show "discover_item_pages w ua = Some (Inr ts) \<and> discover_item_pages w' ua' = Some (Inr ts')
        \<and> page_edges w ua = page_edges w' ua'
      \<longrightarrow> ts = ts'"
  proof
    assume a: "discover_item_pages w ua = Some (Inr ts) \<and> discover_item_pages w' ua' = Some (Inr ts')
        \<and> page_edges w ua = page_edges w' ua'"
    from a have 1: "ts = sorted_list_of_set (snd ` page_edges w ua)"
      using discover_item_pages_result(1) [of w ua ts] by (simp add: reachable_pages_edges)
    from a have 2: "ts' = sorted_list_of_set (snd ` page_edges w' ua')"
      using discover_item_pages_result(1) [of w' ua' ts'] by (simp add: reachable_pages_edges)
    from a have 3: "page_edges w ua = page_edges w' ua'"
      by simp
    show "ts = ts'"
      unfolding 1 2 3 ..
  qed
qed

theorem titles_sorted_unique_from_edges_witness:
  "discover_item_pages example_wiki ''ua'' = Some (Inr [''Flashlight'', ''Gone'', ''Map'', ''Toolbox''])
   \<and> discover_item_pages example_wiki2 ''ua2'' = Some (Inr [''Flashlight'', ''Gone'', ''Map'', ''Toolbox''])
   \<and> page_edges example_wiki ''ua'' = page_edges example_wiki2 ''ua2''
   \<and> sorted [''Flashlight'', ''Gone'', ''Map'', ''Toolbox'']
   \<and> distinct [''Flashlight'', ''Gone'', ''Map'', ''Toolbox'']
   \<and> set [''Flashlight'', ''Gone'', ''Map'', ''Toolbox''] = snd ` page_edges example_wiki ''ua''"
proof -
  let ?ts = "[''Flashlight'', ''Gone'', ''Map'', ''Toolbox'']"
  have h1: "discover_item_pages example_wiki ''ua'' = Some (Inr ?ts)"
    by code_simp
  have h2: "discover_item_pages example_wiki2 ''ua2'' = Some (Inr ?ts)"
    by code_simp
  have h3: "page_edges example_wiki ''ua'' = page_edges example_wiki2 ''ua2''"
    by (rule example_page_edges_eq)
  note T = titles_sorted_unique_from_edges [of example_wiki "''ua''" ?ts example_wiki2 "''ua2''" ?ts]
  from T have "discover_item_pages example_wiki ''ua'' = Some (Inr ?ts)
      \<longrightarrow> sorted ?ts \<and> distinct ?ts \<and> set ?ts = snd ` page_edges example_wiki ''ua''"
    by (rule conjunct1)
  from this h1 have "sorted ?ts \<and> distinct ?ts \<and> set ?ts = snd ` page_edges example_wiki ''ua''"
    by (rule mp)
  with h1 h2 h3 show ?thesis
    by (intro conjI) (erule conjE | assumption)+
qed

end
